theory Spec2Isabelle
  imports Main
begin

section \<open>Calendar dates as the program sees them\<close>

text \<open>
  The program \<^verbatim>\<open>trashdays.py\<close> works on timezone-aware \<^verbatim>\<open>datetime\<close> values that
  are all at local midnight: \<^verbatim>\<open>TODAY\<close> is truncated to 00:00:00, \<^verbatim>\<open>RECYCLING_EPOCH\<close> is
  a midnight, and every value derived from them is obtained by adding whole days. A
  value is therefore its day in the proleptic Gregorian calendar, kept as Python's
  ordinal (\<^verbatim>\<open>toordinal()\<close>, day 1 is 0001-01-01), together with the UTC offset of the
  \<^verbatim>\<open>pytz\<close> zone object it carries, in seconds. \<^verbatim>\<open>US/Central\<close> has two such objects:
  standard time (CST, six hours behind UTC) and daylight time (CDT, five hours behind).

  The calendar is not cut off at \<^verbatim>\<open>datetime.min\<close> and \<^verbatim>\<open>datetime.max\<close>: ordinals are
  unbounded integers, where Python raises \<^verbatim>\<open>OverflowError\<close> for a result before
  0001-01-01 or after 9999-12-31. For a reference date from 0001-01-01 to 9999-12-16 every
  date the program computes stays in Python's range (lemma \<open>stays_in_range\<close> below), so
  there the model and Python agree.
\<close>

record datetime =
  ordinal :: int
  utcoffset :: int

definition CST :: int where
  "CST = - 21600"

definition CDT :: int where
  "CDT = - 18000"

subsection \<open>Python's calendar arithmetic\<close>

text \<open>The tables \<^verbatim>\<open>_DAYS_IN_MONTH\<close> and \<^verbatim>\<open>_DAYS_BEFORE_MONTH\<close> of \<^verbatim>\<open>datetime.py\<close>,
  indexed by the month, with a placeholder at index 0.\<close>

definition DAYS_IN_MONTH :: "int list" where
  "DAYS_IN_MONTH = [- 1, 31, 28, 31, 30, 31, 30, 31, 31, 30, 31, 30, 31]"

definition DAYS_BEFORE_MONTH :: "int list" where
  "DAYS_BEFORE_MONTH = [- 1, 0, 31, 59, 90, 120, 151, 181, 212, 243, 273, 304, 334]"

definition is_leap :: "int \<Rightarrow> bool" where
  "is_leap year \<longleftrightarrow> year mod 4 = 0 \<and> (year mod 100 \<noteq> 0 \<or> year mod 400 = 0)"

definition days_before_year :: "int \<Rightarrow> int" where
  "days_before_year year =
     (let y = year - 1 in y * 365 + y div 4 - y div 100 + y div 400)"

definition days_before_month :: "int \<Rightarrow> int \<Rightarrow> int" where
  "days_before_month year month =
     DAYS_BEFORE_MONTH ! nat month + (if month > 2 \<and> is_leap year then 1 else 0)"

definition days_in_month :: "int \<Rightarrow> int \<Rightarrow> int" where
  "days_in_month year month =
     (if month = 2 \<and> is_leap year then 29 else DAYS_IN_MONTH ! nat month)"

text \<open>\<^verbatim>\<open>_ymd2ord\<close>: the ordinal of a year, month and day.\<close>

definition ymd2ord :: "int \<Rightarrow> int \<Rightarrow> int \<Rightarrow> int" where
  "ymd2ord year month day = days_before_year year + days_before_month year month + day"

text \<open>The check \<^verbatim>\<open>_check_date_fields\<close> of the constructor, on the month and the day (the
  year is not bounded here).\<close>

definition valid_date :: "int \<Rightarrow> int \<Rightarrow> int \<Rightarrow> bool" where
  "valid_date year month day \<longleftrightarrow>
     1 \<le> month \<and> month \<le> 12 \<and> 1 \<le> day \<and> day \<le> days_in_month year month"

text \<open>\<^verbatim>\<open>_ord2ymd\<close>: the year, month and day of an ordinal, by the 400-, 100-, 4- and
  1-year cycles, then the month estimated as \<^verbatim>\<open>(n + 50) >> 5\<close> and corrected.\<close>

definition ord2ymd :: "int \<Rightarrow> int \<times> int \<times> int" where
  "ord2ymd n0 =
     (let n = n0 - 1;
          n400 = n div 146097; n = n mod 146097;
          year = n400 * 400 + 1;
          n100 = n div 36524; n = n mod 36524;
          n4 = n div 1461; n = n mod 1461;
          n1 = n div 365; n = n mod 365;
          year = year + (n100 * 100 + n4 * 4 + n1)
      in if n1 = 4 \<or> n100 = 4 then (year - 1, 12, 31)
         else
           let leapyear = (n1 = 3 \<and> (n4 \<noteq> 24 \<or> n100 = 3));
               month = (n + 50) div 32;
               preceding = DAYS_BEFORE_MONTH ! nat month
                             + (if month > 2 \<and> leapyear then 1 else 0)
           in if preceding > n
              then (let month = month - 1;
                        preceding = preceding - (DAYS_IN_MONTH ! nat month
                                      + (if month = 2 \<and> leapyear then 1 else 0))
                    in (year, month, n - preceding + 1))
              else (year, month, n - preceding + 1))"

text \<open>The attributes \<^verbatim>\<open>dt.year\<close>, \<^verbatim>\<open>dt.month\<close>, \<^verbatim>\<open>dt.day\<close> and the method
  \<^verbatim>\<open>dt.weekday()\<close> (Monday is 0).\<close>

definition year_of :: "datetime \<Rightarrow> int" where
  "year_of dt = fst (ord2ymd (ordinal dt))"

definition month_of :: "datetime \<Rightarrow> int" where
  "month_of dt = fst (snd (ord2ymd (ordinal dt)))"

definition day_of :: "datetime \<Rightarrow> int" where
  "day_of dt = snd (snd (ord2ymd (ordinal dt)))"

definition weekday :: "datetime \<Rightarrow> int" where
  "weekday dt = (ordinal dt + 6) mod 7"

text \<open>A midnight of the given calendar day, carrying the zone object with the given
  offset: \<^verbatim>\<open>TZ.localize(datetime.datetime(y, m, d))\<close>.\<close>

definition mk_datetime :: "int \<Rightarrow> int \<Rightarrow> int \<Rightarrow> int \<Rightarrow> datetime" where
  "mk_datetime year month day off = \<lparr>ordinal = ymd2ord year month day, utcoffset = off\<rparr>"

text \<open>\<^verbatim>\<open>dt + datetime.timedelta(days=n)\<close>: wall-clock arithmetic, the zone object is
  kept.\<close>

definition plus_days :: "datetime \<Rightarrow> int \<Rightarrow> datetime" where
  "plus_days dt n = dt\<lparr>ordinal := ordinal dt + n\<rparr>"

text \<open>The ordinals of \<^verbatim>\<open>datetime.min\<close> and \<^verbatim>\<open>datetime.max\<close> bound the values Python
  can represent.\<close>

definition in_range :: "datetime \<Rightarrow> bool" where
  "in_range dt \<longleftrightarrow> 1 \<le> ordinal dt \<and> ordinal dt \<le> 3652059"

text \<open>Comparisons of aware values carrying different zone objects are made on the UTC
  instants; with the same offset they compare the local fields, which gives the same
  answer. The instant of a local midnight, in seconds:\<close>

definition utc_seconds :: "datetime \<Rightarrow> int" where
  "utc_seconds dt = ordinal dt * 86400 - utcoffset dt"

definition dt_eq :: "datetime \<Rightarrow> datetime \<Rightarrow> bool" where
  "dt_eq a b \<longleftrightarrow> utc_seconds a = utc_seconds b"

definition dt_le :: "datetime \<Rightarrow> datetime \<Rightarrow> bool" where
  "dt_le a b \<longleftrightarrow> utc_seconds a \<le> utc_seconds b"

definition dt_gt :: "datetime \<Rightarrow> datetime \<Rightarrow> bool" where
  "dt_gt a b \<longleftrightarrow> utc_seconds a > utc_seconds b"

text \<open>\<^verbatim>\<open>(a - b).days\<close>: the difference is a \<^verbatim>\<open>timedelta\<close>, normalised so that its
  seconds are non-negative; \<^verbatim>\<open>.days\<close> is the floor.\<close>

definition sub_days :: "datetime \<Rightarrow> datetime \<Rightarrow> int" where
  "sub_days a b = (utc_seconds a - utc_seconds b) div 86400"

text \<open>\<^verbatim>\<open>dt + relativedelta(days=n, weekday=wd)\<close> of \<^verbatim>\<open>dateutil\<close>, for a weekday
  \<^verbatim>\<open>wd\<close> with no count (\<^verbatim>\<open>rel.TU\<close> means \<^verbatim>\<open>TU(+1)\<close>): the days are added first, then
  the result is moved forward to the first day of that weekday, staying where it is when
  it already falls on it.\<close>

definition relativedelta :: "datetime \<Rightarrow> int \<Rightarrow> int \<Rightarrow> datetime" where
  "relativedelta dt n wd =
     (let ret = plus_days dt n;
          jumpdays = (7 - weekday ret + wd) mod 7
      in plus_days ret jumpdays)"

text \<open>\<^verbatim>\<open>rrule(dtstart, until, freq=WEEKLY, interval=2)\<close> of \<^verbatim>\<open>dateutil\<close>: the
  occurrences are \<^verbatim>\<open>dtstart\<close> and every fourteenth day after it, each carrying the zone
  object of \<^verbatim>\<open>dtstart\<close>; the iteration stops at the first occurrence that compares
  greater than \<^verbatim>\<open>until\<close>.\<close>

function rrule_biweekly :: "datetime \<Rightarrow> datetime \<Rightarrow> datetime list" where
  "rrule_biweekly cur until =
     (if dt_gt cur until then [] else cur # rrule_biweekly (plus_days cur 14) until)"
  by pat_completeness auto
termination
  by (relation "measure (\<lambda>(cur, until). nat (utc_seconds until - utc_seconds cur + 1))")
     (auto simp: dt_gt_def utc_seconds_def plus_days_def)

section \<open>The program\<close>

definition TUESDAY :: int where
  "TUESDAY = 1"

definition WEDNESDAY :: int where
  "WEDNESDAY = 2"

text \<open>\<^verbatim>\<open>RECYCLING_EPOCH = TZ.localize(datetime.datetime(2021, 3, 16))\<close>: daylight time
  began on 2021-03-14, so the epoch carries the CDT zone object.\<close>

definition RECYCLING_EPOCH :: datetime where
  "RECYCLING_EPOCH = mk_datetime 2021 3 16 CDT"

text \<open>In \<^verbatim>\<open>_is_observed_holiday\<close> the \<^verbatim>\<open>return\<close> statement ends its first line with
  \<^verbatim>\<open>or\<close> and goes on in the next line with no parenthesis or backslash to join them,
  which Python does not accept as written. It is read here as the one expression the two
  lines spell out: the disjunction of the two month-and-day tests.\<close>

definition is_observed_holiday :: "datetime \<Rightarrow> bool" where
  "is_observed_holiday dt \<longleftrightarrow>
     (month_of dt = 12 \<and> day_of dt = 25) \<or> (month_of dt = 1 \<and> day_of dt = 1)"

definition holiday_adjust :: "datetime \<Rightarrow> datetime" where
  "holiday_adjust dt = (if is_observed_holiday dt then plus_days dt 1 else dt)"

text \<open>The module-level \<^verbatim>\<open>TODAY\<close> is an argument of every function that reads it.\<close>

definition generate_recycling_days :: "datetime \<Rightarrow> datetime list" where
  "generate_recycling_days TODAY =
     map (\<lambda>x. holiday_adjust x) (rrule_biweekly RECYCLING_EPOCH (plus_days TODAY 14))"

text \<open>In \<^verbatim>\<open>_determine_upcoming_trash_day\<close> the last \<^verbatim>\<open>return\<close> is reached from two places:
  a weekday other than Tuesday and Wednesday, and a Wednesday whose yesterday is not an
  observed holiday. Its value is bound once, as \<open>next_tuesday\<close>.\<close>

definition determine_upcoming_trash_day :: "datetime \<Rightarrow> datetime" where
  "determine_upcoming_trash_day TODAY =
     (let next_tuesday = holiday_adjust (relativedelta TODAY 1 TUESDAY)
      in if weekday TODAY = TUESDAY then holiday_adjust TODAY
         else if weekday TODAY = WEDNESDAY then
           (let yesterday = plus_days TODAY (- 1)
            in if is_observed_holiday yesterday then TODAY else next_tuesday)
         else next_tuesday)"

text \<open>The result record: the two fields the schedule decides. (The other two,
  \<^verbatim>\<open>trash_day_readable\<close> and \<^verbatim>\<open>trash_day\<close>, are \<^verbatim>\<open>strftime\<close> renderings of the same
  trash day.) Membership \<^verbatim>\<open>trash_day in ...\<close> compares with \<^verbatim>\<open>==\<close>.\<close>

record params =
  countdown :: int
  recycling :: bool

definition render_params :: "datetime \<Rightarrow> datetime \<Rightarrow> params" where
  "render_params TODAY trash_day =
     \<lparr>countdown = sub_days trash_day TODAY,
      recycling = list_ex (\<lambda>x. dt_eq trash_day x) (generate_recycling_days TODAY)\<rparr>"

text \<open>\<^verbatim>\<open>run\<close>, up to the two writes.\<close>

definition run :: "datetime \<Rightarrow> params" where
  "run TODAY = render_params TODAY (determine_upcoming_trash_day TODAY)"

section \<open>Auxiliary notions for the calendar proofs\<close>

text \<open>The second half of \<^verbatim>\<open>_ord2ymd\<close> on its own: the month and the day of month of
  the \<open>n\<close>-th day of a year (counted from 0), for a common or a leap year.\<close>

definition month_day :: "int \<Rightarrow> bool \<Rightarrow> int \<times> int" where
  "month_day n leapyear =
     (let month = (n + 50) div 32;
          preceding = DAYS_BEFORE_MONTH ! nat month
                        + (if month > 2 \<and> leapyear then 1 else 0)
      in if preceding > n
         then (let month = month - 1;
                   preceding = preceding - (DAYS_IN_MONTH ! nat month
                                 + (if month = 2 \<and> leapyear then 1 else 0))
               in (month, n - preceding + 1))
         else (month, n - preceding + 1))"

text \<open>The same with the month estimate as an argument.\<close>

definition month_day_from :: "int \<Rightarrow> int \<Rightarrow> bool \<Rightarrow> int \<times> int" where
  "month_day_from m r l =
     (let preceding = DAYS_BEFORE_MONTH ! nat m + (if m > 2 \<and> l then 1 else 0)
      in if preceding > r
         then (m - 1, r - (preceding - (DAYS_IN_MONTH ! nat (m - 1)
                 + (if m - 1 = 2 \<and> l then 1 else 0))) + 1)
         else (m, r - preceding + 1))"

text \<open>The quotients of the cycle decomposition in the first half of \<^verbatim>\<open>_ord2ymd\<close>,
  and the remaining day of the year, as functions of \<open>n = ordinal - 1\<close>.\<close>

definition cyc100 :: "int \<Rightarrow> int" where
  "cyc100 n = (n mod 146097) div 36524"

definition cyc4 :: "int \<Rightarrow> int" where
  "cyc4 n = ((n mod 146097) mod 36524) div 1461"

definition cyc1 :: "int \<Rightarrow> int" where
  "cyc1 n = (((n mod 146097) mod 36524) mod 1461) div 365"

definition yday :: "int \<Rightarrow> int" where
  "yday n = (((n mod 146097) mod 36524) mod 1461) mod 365"

section \<open>Facts about the calendar\<close>

text \<open>First the two dates the program singles out: from the month and day of an ordinal
  being 12/25 or 1/1, the day of the year is recovered, and the next ordinal is shown to
  fall in the same year, one day later in the same month.\<close>

lemma month_day_at: "month_day r l = month_day_from ((r + 50) div 32) r l"
  unfolding month_day_def month_day_from_def Let_def by (rule refl)

lemma from_12: "month_day_from 12 r l =
   (if 334 + (if l then 1 else 0) > r then (11, r - (304 + (if l then 1 else 0)) + 1)
    else (12, r - (334 + (if l then 1 else 0)) + 1))"
  by (simp add: month_day_from_def Let_def DAYS_BEFORE_MONTH_def DAYS_IN_MONTH_def)

lemma snd_ord2ymd:
  "snd (ord2ymd n0) =
     (let c = (((n0 - 1) mod 146097) mod 36524) mod 1461;
          n100 = ((n0 - 1) mod 146097) div 36524;
          n4 = (((n0 - 1) mod 146097) mod 36524) div 1461;
          n1 = c div 365
      in if n1 = 4 \<or> n100 = 4 then (12, 31)
         else month_day (c mod 365) (n1 = 3 \<and> (n4 \<noteq> 24 \<or> n100 = 3)))"
  unfolding ord2ymd_def month_day_def Let_def
  by (simp only: if_distrib [of snd] snd_conv if_distrib [of "Pair _"] cong: if_cong)

lemma fst_month_day_from:
  "fst (month_day_from m r l) = m \<or> fst (month_day_from m r l) = m - 1"
  unfolding month_day_from_def Let_def by simp

lemma from_1: "month_day_from 1 r l = (if 0 > r then (0, r - (0 - (- 1)) + 1) else (1, r + 1))"
  by (simp add: month_day_from_def Let_def DAYS_BEFORE_MONTH_def DAYS_IN_MONTH_def)

lemma from_2: "month_day_from 2 r l = (if 31 > r then (1, r + 1) else (2, r - 31 + 1))"
  by (simp add: month_day_from_def Let_def DAYS_BEFORE_MONTH_def DAYS_IN_MONTH_def)

lemma month_estimate:
  fixes r :: int
  assumes "0 \<le> r" and "r < 365"
  shows "1 \<le> (r + 50) div 32" and "(r + 50) div 32 \<le> 12"
  using assms by linarith+

lemma month_day_christmas_inv:
  assumes "0 \<le> r" and "r < 365" and "month_day r l = (12, 25)"
  shows "r = (if l then 359 else 358)"
proof -
  define m where "m = (r + 50) div 32"
  have m12: "m \<le> 12" unfolding m_def by (rule month_estimate [OF assms(1,2)])
  have md: "month_day_from m r l = (12, 25)"
    using assms(3) unfolding m_def month_day_at .
  then have "fst (month_day_from m r l) = 12" by simp
  with fst_month_day_from [of m r l] m12 have "m = 12" by linarith
  with md have "month_day_from 12 r l = (12, 25)" by simp
  then show ?thesis unfolding from_12 by (simp split: if_splits)
qed

lemma month_day_new_year_inv:
  assumes "0 \<le> r" and "r < 365" and "month_day r l = (1, 1)"
  shows "r = 0"
proof -
  define m where "m = (r + 50) div 32"
  have m1: "1 \<le> m" unfolding m_def by (rule month_estimate [OF assms(1,2)])
  have md: "month_day_from m r l = (1, 1)"
    using assms(3) unfolding m_def month_day_at .
  then have "fst (month_day_from m r l) = 1" by simp
  with fst_month_day_from [of m r l] m1 have "m = 1 \<or> m = 2" by linarith
  then show ?thesis
  proof
    assume "m = 1"
    with md have "month_day_from 1 r l = (1, 1)" by simp
    then show ?thesis unfolding from_1 by (simp split: if_splits)
  next
    assume "m = 2"
    with md have "month_day_from 2 r l = (1, 1)" by simp
    then show ?thesis unfolding from_2 by (simp split: if_splits)
  qed
qed

lemma month_day_christmas_next: "month_day ((if l then 359 else 358) + 1) l = (12, 26)"
  by (simp add: month_day_def Let_def DAYS_BEFORE_MONTH_def DAYS_IN_MONTH_def)

lemma month_day_new_year_next: "month_day (0 + 1) l = (1, 2)"
  by (simp add: month_day_def Let_def DAYS_BEFORE_MONTH_def DAYS_IN_MONTH_def)

lemma step_mod:
  fixes x k :: int
  assumes "0 < k" and "x mod k + 1 < k"
  shows "(x + 1) mod k = x mod k + 1" and "(x + 1) div k = x div k"
proof -
  have e: "x + 1 = k * (x div k) + (x mod k + 1)" by simp
  have r: "0 \<le> x mod k + 1" using assms(1) by (simp add: add_nonneg_nonneg)
  show "(x + 1) mod k = x mod k + 1"
    by (rule int_mod_pos_eq [OF e r assms(2)])
  show "(x + 1) div k = x div k"
    by (rule int_div_pos_eq [OF e r assms(2)])
qed

lemma yday_range: "0 \<le> yday n" "yday n < 365"
  by (simp_all add: yday_def)

lemma snd_ord2ymd':
  "snd (ord2ymd n0) =
     (if cyc1 (n0 - 1) = 4 \<or> cyc100 (n0 - 1) = 4 then (12, 31)
      else month_day (yday (n0 - 1))
             (cyc1 (n0 - 1) = 3 \<and> (cyc4 (n0 - 1) \<noteq> 24 \<or> cyc100 (n0 - 1) = 3)))"
  unfolding snd_ord2ymd Let_def cyc1_def cyc100_def cyc4_def yday_def by (rule refl)

lemma succ_cycles:
  fixes n :: int
  assumes h100: "cyc100 n \<noteq> 4" and h1: "cyc1 n \<noteq> 4" and hr: "yday n < 364"
  shows "(n + 1) div 146097 = n div 146097" and "cyc100 (n + 1) = cyc100 n"
    and "cyc4 (n + 1) = cyc4 n" and "cyc1 (n + 1) = cyc1 n" and "yday (n + 1) = yday n + 1"
proof -
  define a where "a = n mod 146097"
  define b where "b = a mod 36524"
  define c where "c = b mod 1461"
  define r where "r = c mod 365"
  define q100 where "q100 = a div 36524"
  define q4 where "q4 = b div 1461"
  define q1 where "q1 = c div 365"
  have a_rng: "0 \<le> a" "a < 146097" by (simp_all add: a_def)
  have b_rng: "0 \<le> b" "b < 36524" by (simp_all add: b_def)
  have c_rng: "0 \<le> c" "c < 1461" by (simp_all add: c_def)
  have r_rng: "0 \<le> r" by (simp add: r_def)
  have ce: "c = 365 * q1 + r" by (simp add: q1_def r_def)
  have be: "b = 1461 * q4 + c" by (simp add: c_def q4_def)
  have ae: "a = 36524 * q100 + b" by (simp add: b_def q100_def)
  have h100': "q100 \<noteq> 4" using h100 by (simp add: cyc100_def q100_def a_def)
  have h1': "q1 \<noteq> 4" using h1 by (simp add: cyc1_def q1_def c_def b_def a_def)
  have hr': "r < 364" using hr by (simp add: yday_def r_def c_def b_def a_def)
  have n1: "q1 \<le> 3" using h1' ce c_rng r_rng by linarith
  have c_le: "c \<le> 1458" using n1 ce hr' by linarith
  have n4: "q4 \<le> 24" using be b_rng c_rng by linarith
  have b_le: "b \<le> 36522" using n4 be c_le by linarith
  have n100: "q100 \<le> 3" using h100' ae a_rng b_rng by linarith
  have a_le: "a \<le> 146094" using n100 ae b_le by linarith
  have sa: "(n + 1) mod 146097 = a + 1" "(n + 1) div 146097 = n div 146097"
    using step_mod [of 146097 n] a_le by (simp_all add: a_def)
  have sb: "(a + 1) mod 36524 = b + 1" "(a + 1) div 36524 = q100"
    using step_mod [of 36524 a] b_le by (simp_all add: b_def q100_def)
  have sc: "(b + 1) mod 1461 = c + 1" "(b + 1) div 1461 = q4"
    using step_mod [of 1461 b] c_le by (simp_all add: c_def q4_def)
  have sr: "(c + 1) mod 365 = r + 1" "(c + 1) div 365 = q1"
    using step_mod [of 365 c] hr' by (simp_all add: r_def q1_def)
  show "(n + 1) div 146097 = n div 146097" by (rule sa(2))
  show "cyc100 (n + 1) = cyc100 n"
    unfolding cyc100_def sa a_def [symmetric] sb q100_def [symmetric] by (rule refl)
  show "cyc4 (n + 1) = cyc4 n"
    unfolding cyc4_def sa a_def [symmetric] sb b_def [symmetric] sc q4_def [symmetric]
    by (rule refl)
  show "cyc1 (n + 1) = cyc1 n"
    unfolding cyc1_def sa a_def [symmetric] sb b_def [symmetric] sc c_def [symmetric] sr
      q1_def [symmetric] by (rule refl)
  show "yday (n + 1) = yday n + 1"
    unfolding yday_def sa a_def [symmetric] sb b_def [symmetric] sc c_def [symmetric] sr
      r_def [symmetric] by (rule refl)
qed

lemma next_day_christmas:
  assumes "snd (ord2ymd n0) = (12, 25)"
  shows "snd (ord2ymd (n0 + 1)) = (12, 26)"
proof -
  define n where "n = n0 - 1"
  define l where "l \<longleftrightarrow> cyc1 n = 3 \<and> (cyc4 n \<noteq> 24 \<or> cyc100 n = 3)"
  have edge: "\<not> (cyc1 n = 4 \<or> cyc100 n = 4)"
    using assms unfolding snd_ord2ymd' n_def [symmetric] by (auto split: if_splits)
  then have md: "month_day (yday n) l = (12, 25)"
    using assms unfolding snd_ord2ymd' n_def [symmetric] l_def by simp
  have r: "yday n = (if l then 359 else 358)"
    by (rule month_day_christmas_inv [OF yday_range md])
  then have r364: "yday n < 364" by simp
  from edge have e1: "cyc100 n \<noteq> 4" and e2: "cyc1 n \<noteq> 4" by simp_all
  note s = succ_cycles [OF e1 e2 r364]
  have eq: "n0 + 1 - 1 = n + 1" by (simp add: n_def)
  have "snd (ord2ymd (n0 + 1)) = month_day (yday n + 1) l"
    unfolding snd_ord2ymd' eq s l_def using edge by simp
  also have "\<dots> = (12, 26)" unfolding r by (rule month_day_christmas_next)
  finally show ?thesis .
qed

lemma next_day_new_year:
  assumes "snd (ord2ymd n0) = (1, 1)"
  shows "snd (ord2ymd (n0 + 1)) = (1, 2)"
proof -
  define n where "n = n0 - 1"
  define l where "l \<longleftrightarrow> cyc1 n = 3 \<and> (cyc4 n \<noteq> 24 \<or> cyc100 n = 3)"
  have edge: "\<not> (cyc1 n = 4 \<or> cyc100 n = 4)"
    using assms unfolding snd_ord2ymd' n_def [symmetric] by (auto split: if_splits)
  then have md: "month_day (yday n) l = (1, 1)"
    using assms unfolding snd_ord2ymd' n_def [symmetric] l_def by simp
  have r: "yday n = 0"
    by (rule month_day_new_year_inv [OF yday_range md])
  then have r364: "yday n < 364" by simp
  from edge have e1: "cyc100 n \<noteq> 4" and e2: "cyc1 n \<noteq> 4" by simp_all
  note s = succ_cycles [OF e1 e2 r364]
  have eq: "n0 + 1 - 1 = n + 1" by (simp add: n_def)
  have "snd (ord2ymd (n0 + 1)) = month_day (yday n + 1) l"
    unfolding snd_ord2ymd' eq s l_def using edge by simp
  also have "\<dots> = (1, 2)" unfolding r by (rule month_day_new_year_next)
  finally show ?thesis .
qed


subsection \<open>The conversions are inverse on valid dates\<close>

text \<open>\<^verbatim>\<open>_ord2ymd\<close> undoes \<^verbatim>\<open>_ymd2ord\<close> on every valid year, month and day: the
  year splits into its 400-, 100-, 4- and 1-year cycles as the ordinal does, and the month
  estimate is off by at most one, which the correction step repairs.\<close>

lemma ord2ymd_cycles:
  "ord2ymd n0 =
     (if cyc1 (n0 - 1) = 4 \<or> cyc100 (n0 - 1) = 4
      then ((n0 - 1) div 146097 * 400 + 1
              + (cyc100 (n0 - 1) * 100 + cyc4 (n0 - 1) * 4 + cyc1 (n0 - 1)) - 1, 12, 31)
      else ((n0 - 1) div 146097 * 400 + 1
              + (cyc100 (n0 - 1) * 100 + cyc4 (n0 - 1) * 4 + cyc1 (n0 - 1)),
            month_day (yday (n0 - 1))
              (cyc1 (n0 - 1) = 3 \<and> (cyc4 (n0 - 1) \<noteq> 24 \<or> cyc100 (n0 - 1) = 3))))"
  unfolding ord2ymd_def month_day_def Let_def cyc1_def cyc100_def cyc4_def yday_def
  by (simp only: if_distrib [of "Pair _"] cong: if_cong)

lemma divmod_eq:
  fixes a b q r :: int
  assumes "a = b * q + r" and "0 \<le> r" and "r < b"
  shows "a div b = q" and "a mod b = r"
  using assms by (rule int_div_pos_eq, rule int_mod_pos_eq)

lemma succ_mod_zero:
  fixes r k :: int
  assumes "0 \<le> r" and "r < k"
  shows "(r + 1) mod k = 0 \<longleftrightarrow> r = k - 1"
proof (cases "r + 1 < k")
  case True
  then have "(r + 1) mod k = r + 1" using assms(1) by (simp add: mod_pos_pos_trivial)
  then show ?thesis using assms(1) True by simp
next
  case False
  then have "r = k - 1" using assms(2) by simp
  then show ?thesis by simp
qed

lemma year_cycles:
  fixes y :: int
  defines "Y \<equiv> y - 1"
  defines "q400 \<equiv> Y div 400" and "q100 \<equiv> (Y mod 400) div 100"
    and "q4 \<equiv> ((Y mod 400) mod 100) div 4" and "r4 \<equiv> ((Y mod 400) mod 100) mod 4"
  shows "days_before_year y = 146097 * q400 + 36524 * q100 + 1461 * q4 + 365 * r4"
    and "y = 400 * q400 + 100 * q100 + 4 * q4 + r4 + 1"
    and "0 \<le> q100 \<and> q100 \<le> 3 \<and> 0 \<le> q4 \<and> q4 \<le> 24 \<and> 0 \<le> r4 \<and> r4 \<le> 3"
    and "is_leap y \<longleftrightarrow> r4 = 3 \<and> (q4 \<noteq> 24 \<or> q100 = 3)"
proof -
  define r400 where "r400 = Y mod 400"
  define r100 where "r100 = r400 mod 100"
  have e400: "Y = 400 * q400 + r400" by (simp add: q400_def r400_def)
  have e100: "r400 = 100 * q100 + r100" by (simp add: q100_def r100_def r400_def)
  have e4: "r100 = 4 * q4 + r4" by (simp add: q4_def r4_def r100_def r400_def)
  have b400: "0 \<le> r400" "r400 < 400" by (simp_all add: r400_def)
  have b100: "0 \<le> r100" "r100 < 100" by (simp_all add: r100_def)
  have b4: "0 \<le> r4" "r4 < 4" by (simp_all add: r4_def)
  have q100: "0 \<le> q100" "q100 \<le> 3" using e100 b400 b100 by linarith+
  have q4: "0 \<le> q4" "q4 \<le> 24" using e4 b100 b4 by linarith+
  show rng: "0 \<le> q100 \<and> q100 \<le> 3 \<and> 0 \<le> q4 \<and> q4 \<le> 24 \<and> 0 \<le> r4 \<and> r4 \<le> 3"
    using q100 q4 b4 by simp
  show y: "y = 400 * q400 + 100 * q100 + 4 * q4 + r4 + 1"
    using e400 e100 e4 by (simp add: Y_def)
  have d4: "Y div 4 = 100 * q400 + 25 * q100 + q4"
    by (rule divmod_eq(1) [where r = r4]) (use e400 e100 e4 b4 in simp_all)
  have d100: "Y div 100 = 4 * q400 + q100"
    by (rule divmod_eq(1) [where r = r100]) (use e400 e100 b100 in simp_all)
  show "days_before_year y = 146097 * q400 + 36524 * q100 + 1461 * q4 + 365 * r4"
    unfolding days_before_year_def Let_def Y_def [symmetric] d4 d100 q400_def [symmetric]
    using e400 e100 e4 by simp
  have m4: "y mod 4 = 0 \<longleftrightarrow> r4 = 3"
  proof -
    have "y = 4 * (100 * q400 + 25 * q100 + q4) + (r4 + 1)" using y by simp
    then have "y mod 4 = (r4 + 1) mod 4" by (simp only: mod_mult_self4)
    then show ?thesis using succ_mod_zero [OF b4] by simp
  qed
  have m100: "y mod 100 = 0 \<longleftrightarrow> r100 = 99"
  proof -
    have "y = 100 * (4 * q400 + q100) + (r100 + 1)" using y e4 by simp
    then have "y mod 100 = (r100 + 1) mod 100" by (simp only: mod_mult_self4)
    then show ?thesis using succ_mod_zero [OF b100] by simp
  qed
  have m400: "y mod 400 = 0 \<longleftrightarrow> r400 = 399"
  proof -
    have "y = 400 * q400 + (r400 + 1)" using e400 by (simp add: Y_def)
    then have "y mod 400 = (r400 + 1) mod 400" by (simp only: mod_mult_self4)
    then show ?thesis using succ_mod_zero [OF b400] by simp
  qed
  have r100: "r100 = 99 \<longleftrightarrow> q4 = 24 \<and> r4 = 3" using e4 b4 q4 by linarith
  have r400: "r400 = 399 \<longleftrightarrow> q100 = 3 \<and> r100 = 99" using e100 b100 q100 by linarith
  show "is_leap y \<longleftrightarrow> r4 = 3 \<and> (q4 \<noteq> 24 \<or> q100 = 3)"
    unfolding is_leap_def m4 m100 m400 r400 r100 by blast
qed

lemma ord2ymd_day_of_year:
  fixes y r :: int
  assumes r: "0 \<le> r" "r \<le> 364"
  shows "ord2ymd (days_before_year y + r + 1) = (y, month_day r (is_leap y))"
proof -
  define Y where "Y = y - 1"
  define q400 where "q400 = Y div 400"
  define q100 where "q100 = (Y mod 400) div 100"
  define q4 where "q4 = ((Y mod 400) mod 100) div 4"
  define r4 where "r4 = ((Y mod 400) mod 100) mod 4"
  note yc = year_cycles [of y, folded Y_def, folded q400_def q100_def q4_def r4_def]
  have rng: "0 \<le> q100" "q100 \<le> 3" "0 \<le> q4" "q4 \<le> 24" "0 \<le> r4" "r4 \<le> 3"
    using yc(3) by simp_all
  define n where "n = days_before_year y + r"
  define c where "c = 365 * r4 + r"
  define b where "b = 1461 * q4 + c"
  define a where "a = 36524 * q100 + b"
  have c_le: "c \<le> 1459" using rng r unfolding c_def by linarith
  have c_rng: "0 \<le> c" "c < 1461" using rng r c_le unfolding c_def by linarith+
  have b_le: "b \<le> 36523" using rng c_le unfolding b_def by linarith
  have b_rng: "0 \<le> b" "b < 36524" using rng c_rng b_le unfolding b_def by linarith+
  have a_le: "a \<le> 146095" using rng b_le unfolding a_def by linarith
  have a_rng: "0 \<le> a" "a < 146097" using rng b_rng a_le unfolding a_def by linarith+
  have n: "n = 146097 * q400 + a" unfolding n_def yc(1) a_def b_def c_def by simp
  have n_div: "n div 146097 = q400" and n_mod: "n mod 146097 = a"
    using divmod_eq [OF n a_rng] by simp_all
  have a_div: "a div 36524 = q100" and a_mod: "a mod 36524 = b"
    using divmod_eq [OF a_def b_rng] by simp_all
  have b_div: "b div 1461 = q4" and b_mod: "b mod 1461 = c"
    using divmod_eq [OF b_def c_rng] by simp_all
  have r365: "r < 365" using r by simp
  have c_div: "c div 365 = r4" and c_mod: "c mod 365 = r"
    using divmod_eq [OF c_def r(1) r365] by simp_all
  have cyc: "cyc100 n = q100" "cyc4 n = q4" "cyc1 n = r4" "yday n = r"
    unfolding cyc100_def cyc4_def cyc1_def yday_def n_mod a_div a_mod b_div b_mod c_div c_mod
    by (rule refl)+
  have eq: "days_before_year y + r + 1 - 1 = n" by (simp add: n_def)
  have edge: "\<not> (r4 = 4 \<or> q100 = 4)" using rng by simp
  have yr: "q400 * 400 + 1 + (q100 * 100 + q4 * 4 + r4) = y" using yc(2) by simp
  show ?thesis
    unfolding ord2ymd_cycles eq cyc n_div yr yc(4) using edge by simp
qed

lemma month_day_inv_1:
  assumes "1 \<le> d" and "d \<le> 31"
  shows "month_day (0 + 0 + d - 1) l = (1, d)"
proof -
  define r where "r = 0 + 0 + d - 1"
  have lo: "0 + 0 \<le> r" and hi: "r < 31"
    and d: "d = r - (0 + 0) + 1"
    using assms unfolding r_def by (simp_all split: if_splits)
  have "(r + 50) div 32 = 1 \<or> (r + 50) div 32 = 2"
    using lo hi by (cases l) (simp_all, linarith+)
  then have "month_day r l = (1, d)"
  proof
    assume e: "(r + 50) div 32 = 1"
    show ?thesis unfolding month_day_at e d using lo hi
      by (simp add: month_day_from_def Let_def DAYS_BEFORE_MONTH_def DAYS_IN_MONTH_def)
  next
    assume e: "(r + 50) div 32 = 2"
    show ?thesis unfolding month_day_at e d using lo hi
      by (simp add: month_day_from_def Let_def DAYS_BEFORE_MONTH_def DAYS_IN_MONTH_def)
  qed
  then show ?thesis unfolding r_def .
qed

lemma month_day_inv_2:
  assumes "1 \<le> d" and "d \<le> 28 + (if l then 1 else 0)"
  shows "month_day (31 + 0 + d - 1) l = (2, d)"
proof -
  define r where "r = 31 + 0 + d - 1"
  have lo: "31 + 0 \<le> r" and hi: "r < 59 + (if l then 1 else 0)"
    and d: "d = r - (31 + 0) + 1"
    using assms unfolding r_def by (simp_all split: if_splits)
  have "(r + 50) div 32 = 2 \<or> (r + 50) div 32 = 3"
    using lo hi by (cases l) (simp_all, linarith+)
  then have "month_day r l = (2, d)"
  proof
    assume e: "(r + 50) div 32 = 2"
    show ?thesis unfolding month_day_at e d using lo hi
      by (simp add: month_day_from_def Let_def DAYS_BEFORE_MONTH_def DAYS_IN_MONTH_def)
  next
    assume e: "(r + 50) div 32 = 3"
    show ?thesis unfolding month_day_at e d using lo hi
      by (simp add: month_day_from_def Let_def DAYS_BEFORE_MONTH_def DAYS_IN_MONTH_def)
  qed
  then show ?thesis unfolding r_def .
qed

lemma month_day_inv_3:
  assumes "1 \<le> d" and "d \<le> 31"
  shows "month_day (59 + (if l then 1 else 0) + d - 1) l = (3, d)"
proof -
  define r where "r = 59 + (if l then 1 else 0) + d - 1"
  have lo: "59 + (if l then 1 else 0) \<le> r" and hi: "r < 90 + (if l then 1 else 0)"
    and d: "d = r - (59 + (if l then 1 else 0)) + 1"
    using assms unfolding r_def by (simp_all split: if_splits)
  have "(r + 50) div 32 = 3 \<or> (r + 50) div 32 = 4"
    using lo hi by (cases l) (simp_all, linarith+)
  then have "month_day r l = (3, d)"
  proof
    assume e: "(r + 50) div 32 = 3"
    show ?thesis unfolding month_day_at e d using lo hi
      by (simp add: month_day_from_def Let_def DAYS_BEFORE_MONTH_def DAYS_IN_MONTH_def)
  next
    assume e: "(r + 50) div 32 = 4"
    show ?thesis unfolding month_day_at e d using lo hi
      by (simp add: month_day_from_def Let_def DAYS_BEFORE_MONTH_def DAYS_IN_MONTH_def)
  qed
  then show ?thesis unfolding r_def .
qed

lemma month_day_inv_4:
  assumes "1 \<le> d" and "d \<le> 30"
  shows "month_day (90 + (if l then 1 else 0) + d - 1) l = (4, d)"
proof -
  define r where "r = 90 + (if l then 1 else 0) + d - 1"
  have lo: "90 + (if l then 1 else 0) \<le> r" and hi: "r < 120 + (if l then 1 else 0)"
    and d: "d = r - (90 + (if l then 1 else 0)) + 1"
    using assms unfolding r_def by (simp_all split: if_splits)
  have "(r + 50) div 32 = 4 \<or> (r + 50) div 32 = 5"
    using lo hi by (cases l) (simp_all, linarith+)
  then have "month_day r l = (4, d)"
  proof
    assume e: "(r + 50) div 32 = 4"
    show ?thesis unfolding month_day_at e d using lo hi
      by (simp add: month_day_from_def Let_def DAYS_BEFORE_MONTH_def DAYS_IN_MONTH_def)
  next
    assume e: "(r + 50) div 32 = 5"
    show ?thesis unfolding month_day_at e d using lo hi
      by (simp add: month_day_from_def Let_def DAYS_BEFORE_MONTH_def DAYS_IN_MONTH_def)
  qed
  then show ?thesis unfolding r_def .
qed

lemma month_day_inv_5:
  assumes "1 \<le> d" and "d \<le> 31"
  shows "month_day (120 + (if l then 1 else 0) + d - 1) l = (5, d)"
proof -
  define r where "r = 120 + (if l then 1 else 0) + d - 1"
  have lo: "120 + (if l then 1 else 0) \<le> r" and hi: "r < 151 + (if l then 1 else 0)"
    and d: "d = r - (120 + (if l then 1 else 0)) + 1"
    using assms unfolding r_def by (simp_all split: if_splits)
  have "(r + 50) div 32 = 5 \<or> (r + 50) div 32 = 6"
    using lo hi by (cases l) (simp_all, linarith+)
  then have "month_day r l = (5, d)"
  proof
    assume e: "(r + 50) div 32 = 5"
    show ?thesis unfolding month_day_at e d using lo hi
      by (simp add: month_day_from_def Let_def DAYS_BEFORE_MONTH_def DAYS_IN_MONTH_def)
  next
    assume e: "(r + 50) div 32 = 6"
    show ?thesis unfolding month_day_at e d using lo hi
      by (simp add: month_day_from_def Let_def DAYS_BEFORE_MONTH_def DAYS_IN_MONTH_def)
  qed
  then show ?thesis unfolding r_def .
qed

lemma month_day_inv_6:
  assumes "1 \<le> d" and "d \<le> 30"
  shows "month_day (151 + (if l then 1 else 0) + d - 1) l = (6, d)"
proof -
  define r where "r = 151 + (if l then 1 else 0) + d - 1"
  have lo: "151 + (if l then 1 else 0) \<le> r" and hi: "r < 181 + (if l then 1 else 0)"
    and d: "d = r - (151 + (if l then 1 else 0)) + 1"
    using assms unfolding r_def by (simp_all split: if_splits)
  have "(r + 50) div 32 = 6 \<or> (r + 50) div 32 = 7"
    using lo hi by (cases l) (simp_all, linarith+)
  then have "month_day r l = (6, d)"
  proof
    assume e: "(r + 50) div 32 = 6"
    show ?thesis unfolding month_day_at e d using lo hi
      by (simp add: month_day_from_def Let_def DAYS_BEFORE_MONTH_def DAYS_IN_MONTH_def)
  next
    assume e: "(r + 50) div 32 = 7"
    show ?thesis unfolding month_day_at e d using lo hi
      by (simp add: month_day_from_def Let_def DAYS_BEFORE_MONTH_def DAYS_IN_MONTH_def)
  qed
  then show ?thesis unfolding r_def .
qed

lemma month_day_inv_7:
  assumes "1 \<le> d" and "d \<le> 31"
  shows "month_day (181 + (if l then 1 else 0) + d - 1) l = (7, d)"
proof -
  define r where "r = 181 + (if l then 1 else 0) + d - 1"
  have lo: "181 + (if l then 1 else 0) \<le> r" and hi: "r < 212 + (if l then 1 else 0)"
    and d: "d = r - (181 + (if l then 1 else 0)) + 1"
    using assms unfolding r_def by (simp_all split: if_splits)
  have "(r + 50) div 32 = 7 \<or> (r + 50) div 32 = 8"
    using lo hi by (cases l) (simp_all, linarith+)
  then have "month_day r l = (7, d)"
  proof
    assume e: "(r + 50) div 32 = 7"
    show ?thesis unfolding month_day_at e d using lo hi
      by (simp add: month_day_from_def Let_def DAYS_BEFORE_MONTH_def DAYS_IN_MONTH_def)
  next
    assume e: "(r + 50) div 32 = 8"
    show ?thesis unfolding month_day_at e d using lo hi
      by (simp add: month_day_from_def Let_def DAYS_BEFORE_MONTH_def DAYS_IN_MONTH_def)
  qed
  then show ?thesis unfolding r_def .
qed

lemma month_day_inv_8:
  assumes "1 \<le> d" and "d \<le> 31"
  shows "month_day (212 + (if l then 1 else 0) + d - 1) l = (8, d)"
proof -
  define r where "r = 212 + (if l then 1 else 0) + d - 1"
  have lo: "212 + (if l then 1 else 0) \<le> r" and hi: "r < 243 + (if l then 1 else 0)"
    and d: "d = r - (212 + (if l then 1 else 0)) + 1"
    using assms unfolding r_def by (simp_all split: if_splits)
  have "(r + 50) div 32 = 8 \<or> (r + 50) div 32 = 9"
    using lo hi by (cases l) (simp_all, linarith+)
  then have "month_day r l = (8, d)"
  proof
    assume e: "(r + 50) div 32 = 8"
    show ?thesis unfolding month_day_at e d using lo hi
      by (simp add: month_day_from_def Let_def DAYS_BEFORE_MONTH_def DAYS_IN_MONTH_def)
  next
    assume e: "(r + 50) div 32 = 9"
    show ?thesis unfolding month_day_at e d using lo hi
      by (simp add: month_day_from_def Let_def DAYS_BEFORE_MONTH_def DAYS_IN_MONTH_def)
  qed
  then show ?thesis unfolding r_def .
qed

lemma month_day_inv_9:
  assumes "1 \<le> d" and "d \<le> 30"
  shows "month_day (243 + (if l then 1 else 0) + d - 1) l = (9, d)"
proof -
  define r where "r = 243 + (if l then 1 else 0) + d - 1"
  have lo: "243 + (if l then 1 else 0) \<le> r" and hi: "r < 273 + (if l then 1 else 0)"
    and d: "d = r - (243 + (if l then 1 else 0)) + 1"
    using assms unfolding r_def by (simp_all split: if_splits)
  have "(r + 50) div 32 = 9 \<or> (r + 50) div 32 = 10"
    using lo hi by (cases l) (simp_all, linarith+)
  then have "month_day r l = (9, d)"
  proof
    assume e: "(r + 50) div 32 = 9"
    show ?thesis unfolding month_day_at e d using lo hi
      by (simp add: month_day_from_def Let_def DAYS_BEFORE_MONTH_def DAYS_IN_MONTH_def)
  next
    assume e: "(r + 50) div 32 = 10"
    show ?thesis unfolding month_day_at e d using lo hi
      by (simp add: month_day_from_def Let_def DAYS_BEFORE_MONTH_def DAYS_IN_MONTH_def)
  qed
  then show ?thesis unfolding r_def .
qed

lemma month_day_inv_10:
  assumes "1 \<le> d" and "d \<le> 31"
  shows "month_day (273 + (if l then 1 else 0) + d - 1) l = (10, d)"
proof -
  define r where "r = 273 + (if l then 1 else 0) + d - 1"
  have lo: "273 + (if l then 1 else 0) \<le> r" and hi: "r < 304 + (if l then 1 else 0)"
    and d: "d = r - (273 + (if l then 1 else 0)) + 1"
    using assms unfolding r_def by (simp_all split: if_splits)
  have "(r + 50) div 32 = 10 \<or> (r + 50) div 32 = 11"
    using lo hi by (cases l) (simp_all, linarith+)
  then have "month_day r l = (10, d)"
  proof
    assume e: "(r + 50) div 32 = 10"
    show ?thesis unfolding month_day_at e d using lo hi
      by (simp add: month_day_from_def Let_def DAYS_BEFORE_MONTH_def DAYS_IN_MONTH_def)
  next
    assume e: "(r + 50) div 32 = 11"
    show ?thesis unfolding month_day_at e d using lo hi
      by (simp add: month_day_from_def Let_def DAYS_BEFORE_MONTH_def DAYS_IN_MONTH_def)
  qed
  then show ?thesis unfolding r_def .
qed

lemma month_day_inv_11:
  assumes "1 \<le> d" and "d \<le> 30"
  shows "month_day (304 + (if l then 1 else 0) + d - 1) l = (11, d)"
proof -
  define r where "r = 304 + (if l then 1 else 0) + d - 1"
  have lo: "304 + (if l then 1 else 0) \<le> r" and hi: "r < 334 + (if l then 1 else 0)"
    and d: "d = r - (304 + (if l then 1 else 0)) + 1"
    using assms unfolding r_def by (simp_all split: if_splits)
  have "(r + 50) div 32 = 11 \<or> (r + 50) div 32 = 12"
    using lo hi by (cases l) (simp_all, linarith+)
  then have "month_day r l = (11, d)"
  proof
    assume e: "(r + 50) div 32 = 11"
    show ?thesis unfolding month_day_at e d using lo hi
      by (simp add: month_day_from_def Let_def DAYS_BEFORE_MONTH_def DAYS_IN_MONTH_def)
  next
    assume e: "(r + 50) div 32 = 12"
    show ?thesis unfolding month_day_at e d using lo hi
      by (simp add: month_day_from_def Let_def DAYS_BEFORE_MONTH_def DAYS_IN_MONTH_def)
  qed
  then show ?thesis unfolding r_def .
qed

lemma month_day_inv_12:
  assumes "1 \<le> d" and "d \<le> 31"
  shows "month_day (334 + (if l then 1 else 0) + d - 1) l = (12, d)"
proof -
  define r where "r = 334 + (if l then 1 else 0) + d - 1"
  have lo: "334 + (if l then 1 else 0) \<le> r" and hi: "r < 365 + (if l then 1 else 0)"
    and d: "d = r - (334 + (if l then 1 else 0)) + 1"
    using assms unfolding r_def by (simp_all split: if_splits)
  have "334 \<le> r" "r < 366" using lo hi by (simp_all split: if_splits)
  then have e: "(r + 50) div 32 = 12" by linarith
  have "month_day r l = (12, d)"
    unfolding month_day_at e d using lo hi
    by (simp add: month_day_from_def Let_def DAYS_BEFORE_MONTH_def DAYS_IN_MONTH_def)
  then show ?thesis unfolding r_def .
qed

lemma ord2ymd_leap_year_end:
  fixes y :: int
  assumes leap: "is_leap y"
  shows "ord2ymd (days_before_year y + 365 + 1) = (y, 12, 31)"
proof -
  define Y where "Y = y - 1"
  define q400 where "q400 = Y div 400"
  define q100 where "q100 = (Y mod 400) div 100"
  define q4 where "q4 = ((Y mod 400) mod 100) div 4"
  define r4 where "r4 = ((Y mod 400) mod 100) mod 4"
  note yc = year_cycles [of y, folded Y_def, folded q400_def q100_def q4_def r4_def]
  have rng: "0 \<le> q100" "q100 \<le> 3" "0 \<le> q4" "q4 \<le> 24"
    using yc(3) by simp_all
  from leap have r4: "r4 = 3" and q: "q4 \<noteq> 24 \<or> q100 = 3" unfolding yc(4) by simp_all
  define n where "n = days_before_year y + 365"
  have eq: "days_before_year y + 365 + 1 - 1 = n" by (simp add: n_def)
  have y: "y = 400 * q400 + 100 * q100 + 4 * q4 + 4" using yc(2) r4 by simp
  show ?thesis
  proof (cases "q4 = 24")
    case False
    then have q4: "q4 \<le> 23" using rng by simp
    define b where "b = 1461 * q4 + 1460"
    define a where "a = 36524 * q100 + b"
    have c_rng: "(0::int) \<le> 1460" "(1460::int) < 1461" by simp_all
    have b_rng: "0 \<le> b" "b < 36524" using rng q4 unfolding b_def by linarith+
    have a_rng: "0 \<le> a" "a < 146097" using rng q4 unfolding a_def b_def by linarith+
    have n: "n = 146097 * q400 + a" unfolding n_def yc(1) a_def b_def r4 by simp
    have n_div: "n div 146097 = q400" and n_mod: "n mod 146097 = a"
      using divmod_eq [OF n a_rng] by simp_all
    have a_div: "a div 36524 = q100" and a_mod: "a mod 36524 = b"
      using divmod_eq [OF a_def b_rng] by simp_all
    have b_div: "b div 1461 = q4" and b_mod: "b mod 1461 = 1460"
      using divmod_eq [OF b_def c_rng] by simp_all
    have cyc: "cyc100 n = q100" "cyc4 n = q4" "cyc1 n = 4"
      unfolding cyc100_def cyc4_def cyc1_def n_mod a_div a_mod b_div b_mod by simp_all
    show ?thesis unfolding ord2ymd_cycles eq cyc n_div using y by simp
  next
    case True
    with q have q100: "q100 = 3" by simp
    have z: "(0::int) \<le> 146096" "(146096::int) < 146097" by simp_all
    have n: "n = 146097 * q400 + 146096" unfolding n_def yc(1) r4 True q100 by simp
    have n_div: "n div 146097 = q400" and n_mod: "n mod 146097 = 146096"
      using divmod_eq [OF n z] by simp_all
    have cyc: "cyc100 n = 4" "cyc4 n = 0" "cyc1 n = 0"
      unfolding cyc100_def cyc4_def cyc1_def n_mod by simp_all
    show ?thesis unfolding ord2ymd_cycles eq cyc n_div using y True q100 by simp
  qed
qed

lemma month_day_inv:
  assumes "valid_date y m d"
  shows "month_day (days_before_month y m + d - 1) (is_leap y) = (m, d)"
proof -
  from assms have m: "1 \<le> m" "m \<le> 12" and d: "1 \<le> d" "d \<le> days_in_month y m"
    by (simp_all add: valid_date_def)
  from m have "m = 1 \<or> m = 2 \<or> m = 3 \<or> m = 4 \<or> m = 5 \<or> m = 6 \<or> m = 7 \<or> m = 8
      \<or> m = 9 \<or> m = 10 \<or> m = 11 \<or> m = 12"
    by presburger
  then show ?thesis
  proof (elim disjE)
    assume "m = 1"
    with d show ?thesis using month_day_inv_1 [of d "is_leap y"]
      by (simp add: days_before_month_def days_in_month_def DAYS_BEFORE_MONTH_def DAYS_IN_MONTH_def)
  next
    assume "m = 2"
    with d show ?thesis using month_day_inv_2 [of d "is_leap y"]
      by (simp add: days_before_month_def days_in_month_def DAYS_BEFORE_MONTH_def DAYS_IN_MONTH_def
          split: if_splits)
  next
    assume "m = 3"
    with d show ?thesis using month_day_inv_3 [of d "is_leap y"]
      by (simp add: days_before_month_def days_in_month_def DAYS_BEFORE_MONTH_def DAYS_IN_MONTH_def)
  next
    assume "m = 4"
    with d show ?thesis using month_day_inv_4 [of d "is_leap y"]
      by (simp add: days_before_month_def days_in_month_def DAYS_BEFORE_MONTH_def DAYS_IN_MONTH_def)
  next
    assume "m = 5"
    with d show ?thesis using month_day_inv_5 [of d "is_leap y"]
      by (simp add: days_before_month_def days_in_month_def DAYS_BEFORE_MONTH_def DAYS_IN_MONTH_def)
  next
    assume "m = 6"
    with d show ?thesis using month_day_inv_6 [of d "is_leap y"]
      by (simp add: days_before_month_def days_in_month_def DAYS_BEFORE_MONTH_def DAYS_IN_MONTH_def)
  next
    assume "m = 7"
    with d show ?thesis using month_day_inv_7 [of d "is_leap y"]
      by (simp add: days_before_month_def days_in_month_def DAYS_BEFORE_MONTH_def DAYS_IN_MONTH_def)
  next
    assume "m = 8"
    with d show ?thesis using month_day_inv_8 [of d "is_leap y"]
      by (simp add: days_before_month_def days_in_month_def DAYS_BEFORE_MONTH_def DAYS_IN_MONTH_def)
  next
    assume "m = 9"
    with d show ?thesis using month_day_inv_9 [of d "is_leap y"]
      by (simp add: days_before_month_def days_in_month_def DAYS_BEFORE_MONTH_def DAYS_IN_MONTH_def)
  next
    assume "m = 10"
    with d show ?thesis using month_day_inv_10 [of d "is_leap y"]
      by (simp add: days_before_month_def days_in_month_def DAYS_BEFORE_MONTH_def DAYS_IN_MONTH_def)
  next
    assume "m = 11"
    with d show ?thesis using month_day_inv_11 [of d "is_leap y"]
      by (simp add: days_before_month_def days_in_month_def DAYS_BEFORE_MONTH_def DAYS_IN_MONTH_def)
  next
    assume "m = 12"
    with d show ?thesis using month_day_inv_12 [of d "is_leap y"]
      by (simp add: days_before_month_def days_in_month_def DAYS_BEFORE_MONTH_def DAYS_IN_MONTH_def)
  qed
qed

lemma day_of_year_range:
  assumes "valid_date y m d"
  shows "0 \<le> days_before_month y m + d - 1"
    and "days_before_month y m + d - 1 \<le> 364 \<or> (is_leap y \<and> m = 12 \<and> d = 31)"
proof -
  from assms have m: "1 \<le> m" "m \<le> 12" and d: "1 \<le> d" "d \<le> days_in_month y m"
    by (simp_all add: valid_date_def)
  from m have mm: "m = 1 \<or> m = 2 \<or> m = 3 \<or> m = 4 \<or> m = 5 \<or> m = 6 \<or> m = 7 \<or> m = 8
      \<or> m = 9 \<or> m = 10 \<or> m = 11 \<or> m = 12"
    by presburger
  from mm d show "0 \<le> days_before_month y m + d - 1"
    by (elim disjE)
       (simp_all add: days_before_month_def days_in_month_def DAYS_BEFORE_MONTH_def
          DAYS_IN_MONTH_def split: if_splits)
  from mm d show "days_before_month y m + d - 1 \<le> 364 \<or> (is_leap y \<and> m = 12 \<and> d = 31)"
    by (elim disjE)
       (auto simp add: days_before_month_def days_in_month_def DAYS_BEFORE_MONTH_def
          DAYS_IN_MONTH_def split: if_splits)
qed

theorem ord2ymd_ymd2ord:
  assumes "valid_date y m d"
  shows "ord2ymd (ymd2ord y m d) = (y, m, d)"
proof -
  define r where "r = days_before_month y m + d - 1"
  have n: "ymd2ord y m d = days_before_year y + r + 1" by (simp add: ymd2ord_def r_def)
  from day_of_year_range [OF assms]
  have r0: "0 \<le> r" and r1: "r \<le> 364 \<or> (is_leap y \<and> m = 12 \<and> d = 31)"
    unfolding r_def by simp_all
  from r1 show ?thesis
  proof
    assume "r \<le> 364"
    from ord2ymd_day_of_year [OF r0 this, of y] month_day_inv [OF assms]
    show ?thesis unfolding n r_def by simp
  next
    assume e: "is_leap y \<and> m = 12 \<and> d = 31"
    then have "r = 365" unfolding r_def
      by (simp add: days_before_month_def DAYS_BEFORE_MONTH_def)
    with e ord2ymd_leap_year_end [of y] show ?thesis unfolding n by simp
  qed
qed

subsection \<open>Days, weekdays and offsets\<close>

text \<open>Adding days moves the weekday along modulo 7 and keeps the zone object; the jump
  of \<open>relativedelta\<close> from the day after a date reaches the first Tuesday after it.\<close>

lemma weekday_range: "0 \<le> weekday dt \<and> weekday dt < 7"
  by (simp add: weekday_def)

lemma weekday_plus_days: "weekday (plus_days dt n) = (weekday dt + n) mod 7"
  by (simp add: weekday_def plus_days_def mod_simps algebra_simps)

lemma utcoffset_plus_days: "utcoffset (plus_days dt n) = utcoffset dt"
  by (simp add: plus_days_def)

lemma ordinal_plus_days: "ordinal (plus_days dt n) = ordinal dt + n"
  by (simp add: plus_days_def)

lemma plus_days_plus_days: "plus_days (plus_days dt m) n = plus_days dt (m + n)"
  by (simp add: plus_days_def)

lemma plus_days_0: "plus_days dt 0 = dt"
  by (simp add: plus_days_def)

lemma holiday_adjust_cases:
  "holiday_adjust dt = dt \<or> holiday_adjust dt = plus_days dt 1"
  by (simp add: holiday_adjust_def)

lemma weekday_cases:
  "weekday dt = 0 \<or> weekday dt = 1 \<or> weekday dt = 2 \<or> weekday dt = 3
     \<or> weekday dt = 4 \<or> weekday dt = 5 \<or> weekday dt = 6"
  using weekday_range [of dt] by presburger

lemma utcoffset_holiday_adjust: "utcoffset (holiday_adjust dt) = utcoffset dt"
  by (simp add: holiday_adjust_def plus_days_def)

lemma ordinal_holiday_adjust:
  "ordinal (holiday_adjust dt) = ordinal dt \<or> ordinal (holiday_adjust dt) = ordinal dt + 1"
  by (simp add: holiday_adjust_def plus_days_def)

lemma weekday_holiday_adjust:
  "weekday dt = TUESDAY \<Longrightarrow>
     weekday (holiday_adjust dt) = TUESDAY \<or> weekday (holiday_adjust dt) = WEDNESDAY"
  by (simp add: holiday_adjust_def weekday_plus_days TUESDAY_def WEDNESDAY_def)

lemma jump_to_tuesday:
  fixes w :: int
  assumes "0 \<le> w" "w < 7"
  shows "(w + 1 + (7 - (w + 1) mod 7 + 1) mod 7) mod 7 = 1"
    and "0 \<le> (7 - (w + 1) mod 7 + 1) mod 7"
    and "(7 - (w + 1) mod 7 + 1) mod 7 \<le> 6"
    and "w \<noteq> 1 \<Longrightarrow> (7 - (w + 1) mod 7 + 1) mod 7 \<le> 5"
    and "0 \<le> j \<Longrightarrow> j < (7 - (w + 1) mod 7 + 1) mod 7 \<Longrightarrow> (w + 1 + j) mod 7 \<noteq> 1"
  using assms by presburger+

lemma relativedelta_tuesday:
  "relativedelta D 1 TUESDAY = plus_days D (1 + (7 - (weekday D + 1) mod 7 + 1) mod 7)"
  by (simp add: relativedelta_def Let_def weekday_plus_days plus_days_plus_days TUESDAY_def)

lemma next_tuesday:
  fixes D d :: datetime
  defines "T \<equiv> relativedelta D 1 TUESDAY"
  shows "weekday T = TUESDAY" and "utcoffset T = utcoffset D"
    and "ordinal D < ordinal T" and "ordinal T \<le> ordinal D + 7"
    and "weekday D \<noteq> TUESDAY \<Longrightarrow> ordinal T \<le> ordinal D + 6"
    and "ordinal D < ordinal d \<Longrightarrow> ordinal d < ordinal T \<Longrightarrow> weekday d \<noteq> TUESDAY"
proof -
  define w where "w = weekday D"
  define j where "j = (7 - (w + 1) mod 7 + 1) mod 7"
  have w: "0 \<le> w" "w < 7" using weekday_range [of D] by (simp_all add: w_def)
  have T: "T = plus_days D (1 + j)"
    unfolding T_def relativedelta_tuesday w_def j_def by (rule refl)
  have wT: "weekday T = (w + 1 + j) mod 7"
    unfolding T weekday_plus_days w_def by (simp add: add.assoc)
  show "weekday T = TUESDAY"
    unfolding wT j_def TUESDAY_def by (rule jump_to_tuesday(1) [OF w])
  show "utcoffset T = utcoffset D" unfolding T by (rule utcoffset_plus_days)
  have j0: "0 \<le> j" unfolding j_def by (rule jump_to_tuesday(2) [OF w])
  have j6: "j \<le> 6" unfolding j_def by (rule jump_to_tuesday(3) [OF w])
  show "ordinal D < ordinal T" unfolding T ordinal_plus_days using j0 by simp
  show "ordinal T \<le> ordinal D + 7" unfolding T ordinal_plus_days using j6 by simp
  show "ordinal T \<le> ordinal D + 6" if "weekday D \<noteq> TUESDAY"
  proof -
    from that have "w \<noteq> 1" by (simp add: w_def TUESDAY_def)
    then have "j \<le> 5" unfolding j_def by (rule jump_to_tuesday(4) [OF w])
    then show ?thesis unfolding T ordinal_plus_days by simp
  qed
  show "weekday d \<noteq> TUESDAY" if lo: "ordinal D < ordinal d" and hi: "ordinal d < ordinal T"
  proof -
    define i where "i = ordinal d - ordinal D - 1"
    have i: "0 \<le> i" "i < j" using lo hi unfolding T ordinal_plus_days i_def by simp_all
    have "ordinal d + 6 = ordinal D + 6 + (1 + i)" by (simp add: i_def)
    then have "weekday d = ((ordinal D + 6) mod 7 + (1 + i)) mod 7"
      unfolding weekday_def by (simp only: mod_add_left_eq)
    then have "weekday d = (w + 1 + i) mod 7"
      unfolding w_def weekday_def by (simp only: add.assoc)
    then show ?thesis
      using jump_to_tuesday(5) [OF w i(1), of ] i(2) unfolding j_def TUESDAY_def by simp
  qed
qed

subsection \<open>The three branches of the trash-day rule\<close>

lemma determine_cases:
  "determine_upcoming_trash_day D =
     (if weekday D = TUESDAY then holiday_adjust D
      else if weekday D = WEDNESDAY \<and> is_observed_holiday (plus_days D (- 1)) then D
      else holiday_adjust (relativedelta D 1 TUESDAY))"
  by (simp add: determine_upcoming_trash_day_def Let_def)

lemma determine_bounds:
  "(weekday (determine_upcoming_trash_day D) = TUESDAY
      \<or> weekday (determine_upcoming_trash_day D) = WEDNESDAY)
   \<and> utcoffset (determine_upcoming_trash_day D) = utcoffset D
   \<and> ordinal D \<le> ordinal (determine_upcoming_trash_day D)
   \<and> ordinal (determine_upcoming_trash_day D) \<le> ordinal D + 7"
proof -
  let ?T = "relativedelta D 1 TUESDAY"
  consider (tue) "weekday D = TUESDAY"
    | (wed) "weekday D \<noteq> TUESDAY" "weekday D = WEDNESDAY \<and> is_observed_holiday (plus_days D (- 1))"
    | (nxt) "weekday D \<noteq> TUESDAY" "\<not> (weekday D = WEDNESDAY \<and> is_observed_holiday (plus_days D (- 1)))"
    by blast
  then show ?thesis
  proof cases
    case tue
    then have R: "determine_upcoming_trash_day D = holiday_adjust D"
      by (simp add: determine_cases)
    show ?thesis
      unfolding R
      using weekday_holiday_adjust [OF tue] ordinal_holiday_adjust [of D]
      by (auto simp add: utcoffset_holiday_adjust)
  next
    case wed
    then have R: "determine_upcoming_trash_day D = D"
      by (simp add: determine_cases)
    show ?thesis unfolding R using wed by simp
  next
    case nxt
    then have R: "determine_upcoming_trash_day D = holiday_adjust ?T"
      by (auto simp add: determine_cases)
    show ?thesis
      unfolding R
      using weekday_holiday_adjust [OF next_tuesday(1) [of D]] ordinal_holiday_adjust [of ?T]
        next_tuesday(2) [of D] next_tuesday(3) [of D] next_tuesday(5) [OF nxt(1)]
      by (auto simp add: utcoffset_holiday_adjust)
  qed
qed

lemma sub_days_same_offset:
  "utcoffset a = utcoffset b \<Longrightarrow> sub_days a b = ordinal a - ordinal b"
proof -
  assume "utcoffset a = utcoffset b"
  then have "utc_seconds a - utc_seconds b = (ordinal a - ordinal b) * 86400"
    by (simp add: utc_seconds_def algebra_simps)
  then show ?thesis by (simp add: sub_days_def)
qed

subsection \<open>The recurrence\<close>

text \<open>The loop of \<open>rrule_biweekly\<close> in closed form: the start plus \<open>14 * k\<close> days for
  \<open>k\<close> below a bound, which is the number of fortnights (1209600 seconds) that fit
  between the start and the end, plus one.\<close>

lemma utc_seconds_plus_days: "utc_seconds (plus_days dt n) = utc_seconds dt + n * 86400"
  by (simp add: utc_seconds_def plus_days_def algebra_simps)

lemma count_step:
  fixes g :: int
  assumes "0 \<le> g"
  shows "nat (g div 1209600 + 1) = Suc (nat ((g - 1209600) div 1209600 + 1))"
proof -
  have "(g - 1209600) div 1209600 = g div 1209600 - 1"
    by linarith
  moreover have "0 \<le> g div 1209600" using assms by (simp add: pos_imp_zdiv_nonneg_iff)
  ultimately show ?thesis by simp
qed

lemma rrule_biweekly_eq:
  "rrule_biweekly cur until =
     map (\<lambda>k. plus_days cur (14 * int k))
       [0 ..< nat ((utc_seconds until - utc_seconds cur) div 1209600 + 1)]"
proof (induction cur until rule: rrule_biweekly.induct)
  case (1 cur until)
  let ?g = "utc_seconds until - utc_seconds cur"
  show ?case
  proof (cases "dt_gt cur until")
    case True
    then have "?g < 0" by (simp add: dt_gt_def)
    then have "?g div 1209600 + 1 \<le> 0" by linarith
    then have "nat (?g div 1209600 + 1) = 0" by simp
    with True show ?thesis by (simp add: rrule_biweekly.simps [of cur until])
  next
    case False
    then have g: "0 \<le> ?g" by (simp add: dt_gt_def)
    let ?n = "nat ((?g - 1209600) div 1209600 + 1)"
    have g': "utc_seconds until - utc_seconds (plus_days cur 14) = ?g - 1209600"
      by (simp add: utc_seconds_plus_days)
    have "rrule_biweekly cur until = cur # rrule_biweekly (plus_days cur 14) until"
      using False by (simp add: rrule_biweekly.simps [of cur until])
    also have "rrule_biweekly (plus_days cur 14) until =
        map (\<lambda>k. plus_days (plus_days cur 14) (14 * int k)) [0 ..< ?n]"
      using "1.IH" [OF False] unfolding g' .
    also have "cur # map (\<lambda>k. plus_days (plus_days cur 14) (14 * int k)) [0 ..< ?n]
        = map (\<lambda>k. plus_days cur (14 * int k)) [0 ..< Suc ?n]"
      by (simp add: upt_conv_Cons map_Suc_upt [symmetric] plus_days_plus_days plus_days_0
          del: upt_Suc)
    finally show ?thesis unfolding count_step [OF g] .
  qed
qed

lemma count_iff:
  fixes g :: int
  shows "k < nat (g div 1209600 + 1) \<longleftrightarrow> int k * 1209600 \<le> g"
proof -
  have "k < nat (g div 1209600 + 1) \<longleftrightarrow> int k \<le> g div 1209600" by linarith
  also have "\<dots> \<longleftrightarrow> int k * 1209600 \<le> g"
    by linarith
  finally show ?thesis .
qed

lemma generate_eq:
  "generate_recycling_days D =
     map (\<lambda>k. holiday_adjust (plus_days RECYCLING_EPOCH (14 * int k)))
       [0 ..< nat ((utc_seconds (plus_days D 14) - utc_seconds RECYCLING_EPOCH) div 1209600 + 1)]"
  unfolding generate_recycling_days_def rrule_biweekly_eq map_map comp_def by (rule refl)

lemma length_generate:
  "length (generate_recycling_days D) =
     nat ((utc_seconds (plus_days D 14) - utc_seconds RECYCLING_EPOCH) div 1209600 + 1)"
  unfolding generate_eq by (simp only: length_map length_upt diff_zero)

lemma generate_map: "generate_recycling_days D =
     map (\<lambda>k. holiday_adjust (plus_days RECYCLING_EPOCH (14 * int k)))
       [0 ..< length (generate_recycling_days D)]"
  unfolding length_generate by (rule generate_eq)

lemma dt_le_central:
  assumes "utcoffset a = CDT" and "utcoffset b = CST \<or> utcoffset b = CDT"
  shows "dt_le a b \<longleftrightarrow> ordinal a \<le> ordinal b"
  using assms by (auto simp add: dt_le_def utc_seconds_def CST_def CDT_def)

lemma utcoffset_epoch: "utcoffset RECYCLING_EPOCH = CDT"
  by (simp add: RECYCLING_EPOCH_def mk_datetime_def)

lemma count_le:
  "k < length (generate_recycling_days D)
          \<longleftrightarrow> dt_le (plus_days RECYCLING_EPOCH (14 * int k)) (plus_days D 14)"
proof -
  have "k < length (generate_recycling_days D)
      \<longleftrightarrow> int k * 1209600 \<le> utc_seconds (plus_days D 14) - utc_seconds RECYCLING_EPOCH"
    unfolding length_generate by (rule count_iff)
  also have "\<dots> \<longleftrightarrow> utc_seconds RECYCLING_EPOCH + 14 * int k * 86400
      \<le> utc_seconds (plus_days D 14)"
    by linarith
  finally show ?thesis
    unfolding dt_le_def utc_seconds_plus_days [of RECYCLING_EPOCH] .
qed

lemma sub_days_candidate:
  "sub_days (plus_days RECYCLING_EPOCH (14 * int k)) RECYCLING_EPOCH = 14 * int k"
  by (simp only: sub_days_same_offset utcoffset_plus_days ordinal_plus_days
      add_diff_cancel_left')

subsection \<open>The day after an observed holiday\<close>

lemma next_day_not_holiday:
  assumes "is_observed_holiday d"
  shows "\<not> is_observed_holiday (plus_days d 1)"
proof -
  from assms consider "snd (ord2ymd (ordinal d)) = (12, 25)" | "snd (ord2ymd (ordinal d)) = (1, 1)"
    unfolding is_observed_holiday_def month_of_def day_of_def
    by (metis prod.collapse)
  then show ?thesis
  proof cases
    case 1
    from next_day_christmas [OF this] show ?thesis
      by (simp add: is_observed_holiday_def month_of_def day_of_def plus_days_def)
  next
    case 2
    from next_day_new_year [OF this] show ?thesis
      by (simp add: is_observed_holiday_def month_of_def day_of_def plus_days_def)
  qed
qed

lemma fields_mk_datetime:
  assumes "valid_date y m d"
  shows "year_of (mk_datetime y m d off) = y" and "month_of (mk_datetime y m d off) = m"
    and "day_of (mk_datetime y m d off) = d"
  using ord2ymd_ymd2ord [OF assms]
  by (simp_all add: year_of_def month_of_def day_of_def mk_datetime_def)

lemma month_day_next_day:
  "(month_of (plus_days d 1), day_of (plus_days d 1)) =
     (if (month_of d, day_of d) = (12, 25) then (12, 26)
      else if (month_of d, day_of d) = (1, 1) then (1, 2)
      else (month_of (plus_days d 1), day_of (plus_days d 1)))"
proof -
  have s: "snd (ord2ymd n) = (fst (snd (ord2ymd n)), snd (snd (ord2ymd n)))" for n by simp
  show ?thesis
    using next_day_christmas [of "ordinal d"] next_day_new_year [of "ordinal d"]
    unfolding month_of_def day_of_def ordinal_plus_days s [symmetric]
    by simp
qed

subsection \<open>Zone objects and the recycling flag\<close>

text \<open>The recycling days carry the zone object of the epoch (daylight time), the trash day
  that of the reference date. Python compares the two as instants, so a reference date in
  standard time never finds its trash day among the recycling days.\<close>

lemma utcoffset_generate:
  "x \<in> set (generate_recycling_days D) \<Longrightarrow> utcoffset x = CDT"
  unfolding generate_eq
  by (auto simp add: utcoffset_holiday_adjust utcoffset_plus_days utcoffset_epoch)

lemma dt_eq_offsets:
  assumes "utcoffset a = CST" and "utcoffset b = CDT"
  shows "\<not> dt_eq a b"
proof
  assume "dt_eq a b"
  then have e: "86400 * (ordinal b - ordinal a) = 3600"
    using assms by (simp add: dt_eq_def utc_seconds_def CST_def CDT_def algebra_simps)
  show False
  proof (cases "ordinal b - ordinal a \<le> 0")
    case True
    then have "86400 * (ordinal b - ordinal a) \<le> 0" by simp
    with e show False by simp
  next
    case False
    then have "86400 * (ordinal b - ordinal a) \<ge> 86400" by simp
    with e show False by simp
  qed
qed

lemma recycling_flag_standard_time:
  assumes "utcoffset D = CST"
  shows "\<not> recycling (run D)"
proof -
  have "utcoffset (determine_upcoming_trash_day D) = CST"
    using determine_bounds [of D] assms by simp
  then show ?thesis
    by (auto simp add: run_def render_params_def list_ex_iff
        dest!: utcoffset_generate dt_eq_offsets)
qed

subsection \<open>The range of Python's dates\<close>

text \<open>For a reference date from 0001-01-01 to 9999-12-16 in either \<^verbatim>\<open>US/Central\<close>
  offset, every date the program computes lies between \<^verbatim>\<open>datetime.min\<close> and
  \<^verbatim>\<open>datetime.max\<close>, so no addition overflows.\<close>

lemma max_ordinal: "ymd2ord 9999 12 31 = 3652059" and min_ordinal: "ymd2ord 1 1 1 = 1"
  by code_simp+

lemma ordinal_epoch: "ordinal RECYCLING_EPOCH = 737865"
  by code_simp

lemma first_wednesday:
  assumes "1 \<le> ordinal D" and "weekday D = WEDNESDAY"
  shows "3 \<le> ordinal D"
proof (rule ccontr)
  assume "\<not> 3 \<le> ordinal D"
  with assms(1) have "ordinal D = 1 \<or> ordinal D = 2" by linarith
  with assms(2) show False by (auto simp add: weekday_def WEDNESDAY_def)
qed

lemma stays_in_range:
  assumes D: "in_range D" and hi: "ordinal D + 15 \<le> 3652059"
    and off: "utcoffset D = CST \<or> utcoffset D = CDT"
  shows "in_range (plus_days D 14)"
    and "weekday D = WEDNESDAY \<Longrightarrow> in_range (plus_days D (- 1))"
    and "in_range (plus_days D 1)"
    and "in_range (relativedelta D 1 TUESDAY)"
    and "in_range (determine_upcoming_trash_day D)"
    and "x \<in> set (rrule_biweekly RECYCLING_EPOCH (plus_days D 14))
           \<Longrightarrow> in_range x \<and> in_range (holiday_adjust x)"
proof -
  from D have lo: "1 \<le> ordinal D" by (simp add: in_range_def)
  show "in_range (plus_days D 14)" using lo hi by (simp add: in_range_def ordinal_plus_days)
  show "in_range (plus_days D (- 1))" if "weekday D = WEDNESDAY"
    using first_wednesday [OF lo that] hi by (simp add: in_range_def ordinal_plus_days)
  show "in_range (plus_days D 1)" using lo hi by (simp add: in_range_def ordinal_plus_days)
  show "in_range (relativedelta D 1 TUESDAY)"
    using next_tuesday(3,4) [of D] lo hi by (simp add: in_range_def)
  show "in_range (determine_upcoming_trash_day D)"
    using determine_bounds [of D] lo hi by (simp add: in_range_def)
  show "in_range x \<and> in_range (holiday_adjust x)"
    if "x \<in> set (rrule_biweekly RECYCLING_EPOCH (plus_days D 14))"
  proof -
    let ?n = "length (generate_recycling_days D)"
    from that obtain k where k: "k < ?n" and x: "x = plus_days RECYCLING_EPOCH (14 * int k)"
      unfolding rrule_biweekly_eq length_generate by auto
    have a: "utcoffset x = CDT" unfolding x utcoffset_plus_days by (rule utcoffset_epoch)
    have b: "utcoffset (plus_days D 14) = CST \<or> utcoffset (plus_days D 14) = CDT"
      unfolding utcoffset_plus_days by (rule off)
    from k have "dt_le x (plus_days D 14)" unfolding x count_le .
    then have le: "ordinal x \<le> ordinal D + 14"
      unfolding dt_le_central [OF a b] ordinal_plus_days .
    have ge: "737865 \<le> ordinal x" unfolding x ordinal_plus_days ordinal_epoch by simp
    from le ge hi ordinal_holiday_adjust [of x] show ?thesis
      by (auto simp add: in_range_def)
  qed
qed

section \<open>The claims\<close>

text \<open>
  \<^bold>\<open>C1.\<close> For every reference date \<open>D\<close> that falls on a Tuesday and is not an observed
  holiday (its month and day are neither 12/25 nor 1/1), \<open>determine_upcoming_trash_day\<close>
  returns \<open>D\<close> itself.
\<close>

theorem tuesday_no_holiday:
  assumes "weekday D = TUESDAY"
    and "(month_of D, day_of D) \<noteq> (12, 25)" and "(month_of D, day_of D) \<noteq> (1, 1)"
  shows "determine_upcoming_trash_day D = D"
  using assms
  by (auto simp add: determine_upcoming_trash_day_def holiday_adjust_def is_observed_holiday_def)

theorem tuesday_no_holiday_witness:
  "weekday (mk_datetime 2021 3 16 CDT) = TUESDAY
   \<and> (month_of (mk_datetime 2021 3 16 CDT), day_of (mk_datetime 2021 3 16 CDT)) \<noteq> (12, 25)
   \<and> (month_of (mk_datetime 2021 3 16 CDT), day_of (mk_datetime 2021 3 16 CDT)) \<noteq> (1, 1)
   \<and> determine_upcoming_trash_day (mk_datetime 2021 3 16 CDT) = mk_datetime 2021 3 16 CDT"
proof -
  let ?D = "mk_datetime 2021 3 16 CDT"
  have a: "weekday ?D = TUESDAY" by code_simp
  have b: "(month_of ?D, day_of ?D) \<noteq> (12, 25)" by code_simp
  have c: "(month_of ?D, day_of ?D) \<noteq> (1, 1)" by code_simp
  from a b c tuesday_no_holiday [OF a b c] show ?thesis by simp
qed

text \<open>
  \<^bold>\<open>C2.\<close> For every reference date \<open>D\<close> whose month and day are 12/25 or 1/1 and that
  falls on a Tuesday, \<open>determine_upcoming_trash_day\<close> returns the day after \<open>D\<close>.
\<close>

theorem tuesday_holiday:
  assumes "weekday D = TUESDAY"
    and "(month_of D, day_of D) = (12, 25) \<or> (month_of D, day_of D) = (1, 1)"
  shows "determine_upcoming_trash_day D = plus_days D 1"
  using assms
  by (auto simp add: determine_upcoming_trash_day_def holiday_adjust_def is_observed_holiday_def)

theorem tuesday_holiday_witness:
  "weekday (mk_datetime 2029 12 25 CST) = TUESDAY
   \<and> (month_of (mk_datetime 2029 12 25 CST), day_of (mk_datetime 2029 12 25 CST)) = (12, 25)
   \<and> determine_upcoming_trash_day (mk_datetime 2029 12 25 CST) = mk_datetime 2029 12 26 CST"
proof -
  let ?D = "mk_datetime 2029 12 25 CST"
  have a: "weekday ?D = TUESDAY" by code_simp
  have b: "(month_of ?D, day_of ?D) = (12, 25)" by code_simp
  have c: "plus_days ?D 1 = mk_datetime 2029 12 26 CST" by code_simp
  from a b c tuesday_holiday [OF a disjI1 [OF b]] show ?thesis by simp
qed

text \<open>
  \<^bold>\<open>C3.\<close> For every reference date \<open>D\<close> that falls on a Wednesday and whose previous day
  is an observed holiday, \<open>determine_upcoming_trash_day\<close> returns \<open>D\<close> unchanged: the
  conclusion does not depend on whether \<open>D\<close> is itself an observed holiday, no holiday
  adjustment is applied to it.
\<close>

theorem wednesday_after_holiday:
  assumes "weekday D = WEDNESDAY"
    and "is_observed_holiday (plus_days D (- 1))"
  shows "determine_upcoming_trash_day D = D"
  using assms
  by (simp add: determine_upcoming_trash_day_def TUESDAY_def WEDNESDAY_def)

theorem wednesday_after_holiday_witness:
  "weekday (mk_datetime 2029 12 26 CST) = WEDNESDAY
   \<and> is_observed_holiday (plus_days (mk_datetime 2029 12 26 CST) (- 1))
   \<and> determine_upcoming_trash_day (mk_datetime 2029 12 26 CST) = mk_datetime 2029 12 26 CST"
proof -
  let ?D = "mk_datetime 2029 12 26 CST"
  have a: "weekday ?D = WEDNESDAY" by code_simp
  have b: "is_observed_holiday (plus_days ?D (- 1))" by code_simp
  from a b wednesday_after_holiday [OF a b] show ?thesis by simp
qed

text \<open>
  \<^bold>\<open>C4.\<close> For every reference date \<open>D\<close> that is neither a Tuesday nor a Wednesday following
  an observed holiday, the result is \<open>holiday_adjust T\<close> where \<open>T\<close> is the first Tuesday
  strictly after \<open>D\<close>: a Tuesday midnight of the same zone object, later than \<open>D\<close>, with
  no Tuesday strictly between the two. Consequently, for every \<open>D\<close> that is neither a
  Tuesday nor a Wednesday, the result falls on a Tuesday or a Wednesday, is strictly later
  than \<open>D\<close> and is at most \<open>D\<close> plus 8 days.
\<close>

theorem next_tuesday_branch:
  "(weekday D \<noteq> TUESDAY
      \<and> \<not> (weekday D = WEDNESDAY \<and> is_observed_holiday (plus_days D (- 1)))
    \<longrightarrow> (\<exists>T. determine_upcoming_trash_day D = holiday_adjust T
           \<and> weekday T = TUESDAY \<and> utcoffset T = utcoffset D \<and> ordinal D < ordinal T
           \<and> (\<forall>d. ordinal D < ordinal d \<and> ordinal d < ordinal T \<longrightarrow> weekday d \<noteq> TUESDAY)))
   \<and> (weekday D \<noteq> TUESDAY \<and> weekday D \<noteq> WEDNESDAY
    \<longrightarrow> (weekday (determine_upcoming_trash_day D) = TUESDAY
           \<or> weekday (determine_upcoming_trash_day D) = WEDNESDAY)
        \<and> utcoffset (determine_upcoming_trash_day D) = utcoffset D
        \<and> ordinal D < ordinal (determine_upcoming_trash_day D)
        \<and> ordinal (determine_upcoming_trash_day D) \<le> ordinal (plus_days D 8))"
proof (intro conjI impI)
  let ?T = "relativedelta D 1 TUESDAY"
  assume a: "weekday D \<noteq> TUESDAY
      \<and> \<not> (weekday D = WEDNESDAY \<and> is_observed_holiday (plus_days D (- 1)))"
  then have R: "determine_upcoming_trash_day D = holiday_adjust ?T"
    by (auto simp add: determine_cases)
  have "\<forall>d. ordinal D < ordinal d \<and> ordinal d < ordinal ?T \<longrightarrow> weekday d \<noteq> TUESDAY"
    using next_tuesday(6) [of D] by blast
  with R next_tuesday(1-3) [of D]
  show "\<exists>T. determine_upcoming_trash_day D = holiday_adjust T
           \<and> weekday T = TUESDAY \<and> utcoffset T = utcoffset D \<and> ordinal D < ordinal T
           \<and> (\<forall>d. ordinal D < ordinal d \<and> ordinal d < ordinal T \<longrightarrow> weekday d \<noteq> TUESDAY)"
    by blast
next
  let ?T = "relativedelta D 1 TUESDAY"
  assume a: "weekday D \<noteq> TUESDAY \<and> weekday D \<noteq> WEDNESDAY"
  then have R: "determine_upcoming_trash_day D = holiday_adjust ?T"
    by (simp add: determine_cases)
  note b = determine_bounds [of D]
  from b show "weekday (determine_upcoming_trash_day D) = TUESDAY
           \<or> weekday (determine_upcoming_trash_day D) = WEDNESDAY" by blast
  from b show "utcoffset (determine_upcoming_trash_day D) = utcoffset D" by blast
  show "ordinal D < ordinal (determine_upcoming_trash_day D)"
    unfolding R using ordinal_holiday_adjust [of ?T] next_tuesday(3) [of D] by linarith
  from b show "ordinal (determine_upcoming_trash_day D) \<le> ordinal (plus_days D 8)"
    unfolding ordinal_plus_days by linarith
qed

theorem next_tuesday_branch_witness:
  "weekday (mk_datetime 2024 12 26 CST) \<noteq> TUESDAY
   \<and> weekday (mk_datetime 2024 12 26 CST) \<noteq> WEDNESDAY
   \<and> determine_upcoming_trash_day (mk_datetime 2024 12 26 CST) = mk_datetime 2024 12 31 CST
   \<and> (\<exists>T. mk_datetime 2024 12 31 CST = holiday_adjust T \<and> weekday T = TUESDAY
          \<and> ordinal (mk_datetime 2024 12 26 CST) < ordinal T)
   \<and> weekday (mk_datetime 2024 12 31 CST) = TUESDAY
   \<and> ordinal (mk_datetime 2024 12 26 CST) < ordinal (mk_datetime 2024 12 31 CST)
   \<and> ordinal (mk_datetime 2024 12 31 CST) \<le> ordinal (plus_days (mk_datetime 2024 12 26 CST) 8)
   \<and> weekday (mk_datetime 2025 1 1 CST) = WEDNESDAY
   \<and> \<not> is_observed_holiday (plus_days (mk_datetime 2025 1 1 CST) (- 1))
   \<and> determine_upcoming_trash_day (mk_datetime 2025 1 1 CST) = mk_datetime 2025 1 7 CST
   \<and> (\<exists>T. mk_datetime 2025 1 7 CST = holiday_adjust T \<and> weekday T = TUESDAY
          \<and> ordinal (mk_datetime 2025 1 1 CST) < ordinal T)"
proof -
  let ?D = "mk_datetime 2024 12 26 CST"
  let ?E = "mk_datetime 2025 1 1 CST"
  have a: "weekday ?D \<noteq> TUESDAY" by code_simp
  have b: "weekday ?D \<noteq> WEDNESDAY" by code_simp
  have r: "determine_upcoming_trash_day ?D = mk_datetime 2024 12 31 CST" by code_simp
  have w: "weekday (mk_datetime 2024 12 31 CST) = TUESDAY" by code_simp
  have c: "weekday ?E = WEDNESDAY" by code_simp
  have c': "weekday ?E \<noteq> TUESDAY" by code_simp
  have d: "\<not> is_observed_holiday (plus_days ?E (- 1))" by code_simp
  have s: "determine_upcoming_trash_day ?E = mk_datetime 2025 1 7 CST" by code_simp
  from next_tuesday_branch [of ?D] a b
  have 1: "(\<exists>T. mk_datetime 2024 12 31 CST = holiday_adjust T \<and> weekday T = TUESDAY
          \<and> ordinal ?D < ordinal T)
      \<and> ordinal ?D < ordinal (mk_datetime 2024 12 31 CST)
      \<and> ordinal (mk_datetime 2024 12 31 CST) \<le> ordinal (plus_days ?D 8)"
    unfolding r by auto
  from next_tuesday_branch [of ?E] c' d
  have 2: "\<exists>T. mk_datetime 2025 1 7 CST = holiday_adjust T \<and> weekday T = TUESDAY
          \<and> ordinal ?E < ordinal T"
    unfolding s by auto
  from a b r w c d s 1 2 show ?thesis by blast
qed

text \<open>
  \<^bold>\<open>C5.\<close> For every date \<open>d\<close>, \<open>is_observed_holiday d\<close> holds exactly when the month
  and day of \<open>d\<close> are 12/25 or 1/1. The year plays no part: for every year \<open>y\<close> and every
  valid month and day, the date built from them is an observed holiday exactly when the
  month and day are 12/25 or 1/1. \<open>holiday_adjust d\<close> is the day after \<open>d\<close> when \<open>d\<close> is an
  observed holiday and \<open>d\<close> itself otherwise: one shift, and the shifted date is not
  looked at again.
\<close>

theorem holiday_rules:
  "(is_observed_holiday d
      \<longleftrightarrow> (month_of d, day_of d) = (12, 25) \<or> (month_of d, day_of d) = (1, 1))
   \<and> (valid_date y m dd \<longrightarrow>
        (is_observed_holiday (mk_datetime y m dd off) \<longleftrightarrow> (m, dd) = (12, 25) \<or> (m, dd) = (1, 1)))
   \<and> holiday_adjust d = (if is_observed_holiday d then plus_days d 1 else d)"
  by (simp add: is_observed_holiday_def holiday_adjust_def fields_mk_datetime)

theorem holiday_rules_witness:
  "valid_date 1999 12 25 \<and> is_observed_holiday (mk_datetime 1999 12 25 CST)
   \<and> valid_date 2400 1 1 \<and> is_observed_holiday (mk_datetime 2400 1 1 CST)
   \<and> valid_date 2024 2 29 \<and> \<not> is_observed_holiday (mk_datetime 2024 2 29 CST)
   \<and> holiday_adjust (mk_datetime 1999 12 25 CST) = mk_datetime 1999 12 26 CST"
proof -
  have v: "valid_date 1999 12 25" "valid_date 2400 1 1" "valid_date 2024 2 29"
    by code_simp+
  have p: "plus_days (mk_datetime 1999 12 25 CST) 1 = mk_datetime 1999 12 26 CST"
    by code_simp
  from v p
    holiday_rules [of "mk_datetime 1999 12 25 CST" 1999 12 25 CST]
    holiday_rules [of "mk_datetime 1999 12 25 CST" 2400 1 1 CST]
    holiday_rules [of "mk_datetime 1999 12 25 CST" 2024 2 29 CST]
  show ?thesis by simp
qed

text \<open>
  \<^bold>\<open>C6.\<close> For every reference date \<open>D\<close>, \<open>generate_recycling_days D\<close> is the list of
  the holiday-adjusted images of the epoch (2021-03-16), the epoch plus 14 days, plus 28
  days, and so on, in this order: the \<open>k\<close>-th unadjusted candidate is in the list exactly when
  it compares \<open>\<le>\<close> with \<open>D\<close> plus 14 days, which for a reference date in either
  \<^verbatim>\<open>US/Central\<close> offset means that its calendar day is not after that of \<open>D\<close> plus 14
  days. Every unadjusted candidate is a multiple of 14 days after the epoch.
\<close>

theorem recycling_days_biweekly:
  "generate_recycling_days D =
     map (\<lambda>k. holiday_adjust (plus_days RECYCLING_EPOCH (14 * int k)))
       [0 ..< length (generate_recycling_days D)]
   \<and> (\<forall>k. k < length (generate_recycling_days D)
          \<longleftrightarrow> dt_le (plus_days RECYCLING_EPOCH (14 * int k)) (plus_days D 14))
   \<and> (utcoffset D = CST \<or> utcoffset D = CDT \<longrightarrow>
        (\<forall>k. k < length (generate_recycling_days D)
          \<longleftrightarrow> ordinal (plus_days RECYCLING_EPOCH (14 * int k)) \<le> ordinal (plus_days D 14)))
   \<and> (\<forall>k. sub_days (plus_days RECYCLING_EPOCH (14 * int k)) RECYCLING_EPOCH mod 14 = 0)
   \<and> (year_of RECYCLING_EPOCH, month_of RECYCLING_EPOCH, day_of RECYCLING_EPOCH) = (2021, 3, 16)"
proof (intro conjI allI impI)
  show "generate_recycling_days D =
     map (\<lambda>k. holiday_adjust (plus_days RECYCLING_EPOCH (14 * int k)))
       [0 ..< length (generate_recycling_days D)]"
    by (rule generate_map)
  show "k < length (generate_recycling_days D)
          \<longleftrightarrow> dt_le (plus_days RECYCLING_EPOCH (14 * int k)) (plus_days D 14)" for k
    by (rule count_le)
  show "k < length (generate_recycling_days D)
          \<longleftrightarrow> ordinal (plus_days RECYCLING_EPOCH (14 * int k)) \<le> ordinal (plus_days D 14)"
    if "utcoffset D = CST \<or> utcoffset D = CDT" for k
  proof -
    have a: "utcoffset (plus_days RECYCLING_EPOCH (14 * int k)) = CDT"
      unfolding utcoffset_plus_days by (rule utcoffset_epoch)
    have b: "utcoffset (plus_days D 14) = CST \<or> utcoffset (plus_days D 14) = CDT"
      unfolding utcoffset_plus_days by (rule that)
    show ?thesis unfolding count_le by (rule dt_le_central [OF a b])
  qed
  show "sub_days (plus_days RECYCLING_EPOCH (14 * int k)) RECYCLING_EPOCH mod 14 = 0" for k
    unfolding sub_days_candidate by simp
  show "(year_of RECYCLING_EPOCH, month_of RECYCLING_EPOCH, day_of RECYCLING_EPOCH)
      = (2021, 3, 16)"
    by code_simp
qed

theorem recycling_days_biweekly_witness:
  "utcoffset (mk_datetime 2021 3 23 CDT) = CDT
   \<and> generate_recycling_days (mk_datetime 2021 3 23 CDT)
       = [mk_datetime 2021 3 16 CDT, mk_datetime 2021 3 30 CDT]
   \<and> ordinal (plus_days RECYCLING_EPOCH (14 * int 1))
       \<le> ordinal (plus_days (mk_datetime 2021 3 23 CDT) 14)
   \<and> \<not> ordinal (plus_days RECYCLING_EPOCH (14 * int 2))
       \<le> ordinal (plus_days (mk_datetime 2021 3 23 CDT) 14)"
proof -
  let ?D = "mk_datetime 2021 3 23 CDT"
  have off: "utcoffset ?D = CDT" by (simp add: mk_datetime_def)
  have gen: "generate_recycling_days ?D = [mk_datetime 2021 3 16 CDT, mk_datetime 2021 3 30 CDT]"
    by code_simp
  have len: "length (generate_recycling_days ?D) = 2" unfolding gen by simp
  from recycling_days_biweekly [of ?D] off
  have "\<forall>k. k < length (generate_recycling_days ?D)
          \<longleftrightarrow> ordinal (plus_days RECYCLING_EPOCH (14 * int k)) \<le> ordinal (plus_days ?D 14)"
    by blast
  then have k: "k < 2 \<longleftrightarrow> ordinal (plus_days RECYCLING_EPOCH (14 * int k)) \<le> ordinal (plus_days ?D 14)"
    for k unfolding len by blast
  have "ordinal (plus_days RECYCLING_EPOCH (14 * int 1)) \<le> ordinal (plus_days ?D 14)"
    using k [of 1] by simp
  moreover have "\<not> ordinal (plus_days RECYCLING_EPOCH (14 * int 2)) \<le> ordinal (plus_days ?D 14)"
    using k [of 2] by simp
  ultimately show ?thesis using off gen by blast
qed

text \<open>
  The claim C7 as stated says that for the reference date 2024-12-24 the result is
  2024-12-26 and the countdown is 2. It is false: the reference date is a Tuesday, so the
  Tuesday branch applies \<open>holiday_adjust\<close> to 2024-12-24 itself, which is not an observed
  holiday.
\<close>

theorem christmas_eve_2024_counterexample:
  "\<not> (determine_upcoming_trash_day (mk_datetime 2024 12 24 CST) = mk_datetime 2024 12 26 CST
      \<and> countdown (run (mk_datetime 2024 12 24 CST)) = 2)"
  by code_simp

text \<open>
  \<^bold>\<open>C7\<close> (as amended). The reference date 2024-12-24 is a Tuesday and not an observed
  holiday; the trash day is 2024-12-24 itself and the countdown of the result record is 0.
\<close>

theorem christmas_eve_2024:
  "weekday (mk_datetime 2024 12 24 CST) = TUESDAY
   \<and> \<not> is_observed_holiday (mk_datetime 2024 12 24 CST)
   \<and> determine_upcoming_trash_day (mk_datetime 2024 12 24 CST) = mk_datetime 2024 12 24 CST
   \<and> countdown (run (mk_datetime 2024 12 24 CST)) = 0"
  by code_simp


text \<open>
  \<^bold>\<open>C9.\<close> For every date \<open>d\<close>, \<open>holiday_adjust d\<close> is never an observed holiday: a
  12/25 becomes a 12/26, a 1/1 becomes a 1/2, and any other date keeps its month and day.
  So \<open>holiday_adjust\<close> is idempotent.
\<close>

theorem holiday_adjust_idempotent:
  "\<not> is_observed_holiday (holiday_adjust d)
   \<and> (month_of (holiday_adjust d), day_of (holiday_adjust d)) =
       (if (month_of d, day_of d) = (12, 25) then (12, 26)
        else if (month_of d, day_of d) = (1, 1) then (1, 2)
        else (month_of d, day_of d))
   \<and> holiday_adjust (holiday_adjust d) = holiday_adjust d"
proof -
  have a: "\<not> is_observed_holiday (holiday_adjust d)"
    using next_day_not_holiday [of d] by (simp add: holiday_adjust_def)
  have b: "(month_of (holiday_adjust d), day_of (holiday_adjust d)) =
       (if (month_of d, day_of d) = (12, 25) then (12, 26)
        else if (month_of d, day_of d) = (1, 1) then (1, 2)
        else (month_of d, day_of d))"
    using month_day_next_day [of d]
    by (auto simp add: holiday_adjust_def is_observed_holiday_def)
  from a have c: "holiday_adjust (holiday_adjust d) = holiday_adjust d"
    by (simp add: holiday_adjust_def [of "holiday_adjust d"])
  from a b c show ?thesis by blast
qed

text \<open>
  \<^bold>\<open>C10.\<close> For every reference date \<open>D\<close>, whatever its weekday and holiday or not, the
  result falls on a Tuesday or a Wednesday and lies between \<open>D\<close> and \<open>D\<close> plus 7 days, so
  the countdown of the result record is an integer from 0 to 7.
\<close>

theorem trash_day_within_week:
  "(weekday (determine_upcoming_trash_day D) = TUESDAY
      \<or> weekday (determine_upcoming_trash_day D) = WEDNESDAY)
   \<and> utcoffset (determine_upcoming_trash_day D) = utcoffset D
   \<and> ordinal D \<le> ordinal (determine_upcoming_trash_day D)
   \<and> ordinal (determine_upcoming_trash_day D) \<le> ordinal (plus_days D 7)
   \<and> 0 \<le> countdown (run D) \<and> countdown (run D) \<le> 7"
proof -
  note b = determine_bounds [of D]
  have c: "countdown (run D) = ordinal (determine_upcoming_trash_day D) - ordinal D"
    using b by (simp add: run_def render_params_def sub_days_same_offset)
  show ?thesis unfolding c ordinal_plus_days using b by simp
qed

end
